theory Spec2Isabelle
  imports Main
begin

section \<open>Values and function objects\<close>

text \<open>
  JavaScript values that travel through the event bus and the construction input.
  \<open>Ctx\<close> is the reference to the application object itself (\<open>this\<close>).
\<close>

datatype val =
    Undefined
  | Null
  | Bool bool
  | Num int
  | Str string
  | Arr "val list"
  | Obj "(string \<times> val) list"
  | Ctx

type_synonym pid = nat

text \<open>
  The function objects that the application creates or receives.  Every closure of
  \<open>index.js\<close> is one constructor, holding the variables it closes over:
  \<^item> \<open>Noop\<close> is the constant \<open>NOOP\<close>;
  \<^item> \<open>User n\<close> is the \<open>n\<close>-th callback supplied by application code; calling it is
    recorded in the call log and it returns \<open>undefined\<close>;
  \<^item> \<open>Resolve p\<close> is the \<open>resolve\<close> function that \<open>new Promise\<close> hands to its executor
    for promise \<open>p\<close>;
  \<^item> \<open>OnceAnyWrapper h\<close> is \<open>handlerWrapper\<close> of \<open>onceAny\<close>, closed over \<open>handler\<close>;
  \<^item> \<open>OnceAnyCleanup evs rc\<close> is the last \<open>then\<close> callback of \<open>onceAny\<close>, closed over
    \<open>events\<close> and the variable \<open>resolveCallback\<close>; the variable only ever holds the
    \<open>resolve\<close> function of a promise, so \<open>rc\<close> is that promise, or \<open>None\<close> while the
    variable is \<open>undefined\<close>;
  \<^item> \<open>AfterWrapper h\<close> is \<open>handlerWrapper\<close> of \<open>after\<close>;
  \<^item> \<open>AllElement r i\<close> is the element function that \<open>Promise.all\<close> installs for index
    \<open>i\<close> of the aggregate promise \<open>r\<close>;
  \<^item> \<open>StartThen\<close> is the \<open>then\<close> callback of \<open>start\<close>.
\<close>

datatype fn =
    Noop
  | User nat
  | Resolve pid
  | OnceAnyWrapper fn
  | OnceAnyCleanup "string list" "pid option"
  | AfterWrapper fn
  | AllElement pid nat
  | StartThen

datatype pstate = Pending "(fn \<times> pid) list" | Fulfilled val

record listener =
  lid :: nat
  ev_name :: string
  is_once :: bool
  callback :: fn

datatype i18n_result = InitError val | InitOk val

section \<open>The runtime state\<close>

text \<open>
  One application object together with the promise heap and the job queue of the
  JavaScript runtime it lives in.  \<open>listeners\<close> is the emitter's table in registration
  order, \<open>promises\<close> the heap of promises (a pending promise holds its reactions, each a
  callback and the promise derived by \<open>then\<close>), \<open>queue\<close> the promise job queue,
  \<open>all_values\<close> and \<open>all_remaining\<close> the shared cells of each \<open>Promise.all\<close> call,
  \<open>calls\<close> the log of application callbacks invoked and \<open>debug_log\<close> what \<open>emit\<close> hands
  to the logger.
\<close>

record state =
  listeners :: "listener list"
  next_lid :: nat
  promises :: "pid \<Rightarrow> pstate"
  next_pid :: pid
  all_values :: "pid \<Rightarrow> val list"
  all_remaining :: "pid \<Rightarrow> nat"
  queue :: "(fn \<times> pid \<times> val) list"
  calls :: "(nat \<times> val list) list"
  debug_log :: "string list"
  started :: bool
  translate :: val
  i18n_pending :: "i18n_result option"
  fatal :: "val option"

definition fresh_state :: state where
  "fresh_state = \<lparr> listeners = [], next_lid = 0, promises = (\<lambda>_. Pending []), next_pid = 0,
     all_values = (\<lambda>_. []), all_remaining = (\<lambda>_. 0), queue = [], calls = [],
     debug_log = [], started = False, translate = Undefined, i18n_pending = None,
     fatal = None \<rparr>"

definition arg0 :: "val list \<Rightarrow> val" where
  "arg0 args = (case args of [] \<Rightarrow> Undefined | v # _ \<Rightarrow> v)"

subsection \<open>Promises\<close>

definition new_promise :: "state \<Rightarrow> pid \<times> state" where
  "new_promise s =
     (next_pid s,
      s\<lparr>promises := (promises s)(next_pid s := Pending []), next_pid := Suc (next_pid s)\<rparr>)"

text \<open>
  The body of a \<open>resolve\<close> function: a pending promise is fulfilled and one job per
  reaction is queued; a settled promise ignores the call.
\<close>

definition resolve_promise :: "pid \<Rightarrow> val \<Rightarrow> state \<Rightarrow> state" where
  "resolve_promise p v s =
     (case promises s p of
        Fulfilled _ \<Rightarrow> s
      | Pending rs \<Rightarrow>
          s\<lparr>promises := (promises s)(p := Fulfilled v),
            queue := queue s @ map (\<lambda>(f, d). (f, d, v)) rs\<rparr>)"

definition promise_then :: "pid \<Rightarrow> fn \<Rightarrow> state \<Rightarrow> pid \<times> state" where
  "promise_then p f s =
     (let (d, s1) = new_promise s
      in case promises s1 p of
           Pending rs \<Rightarrow> (d, s1\<lparr>promises := (promises s1)(p := Pending (rs @ [(f, d)]))\<rparr>)
         | Fulfilled v \<Rightarrow> (d, s1\<lparr>queue := queue s1 @ [(f, d, v)]\<rparr>))"

fun race_elements :: "pid \<Rightarrow> pid list \<Rightarrow> state \<Rightarrow> state" where
  "race_elements r [] s = s"
| "race_elements r (q # qs) s = race_elements r qs (snd (promise_then q (Resolve r) s))"

definition promise_race :: "pid list \<Rightarrow> state \<Rightarrow> pid \<times> state" where
  "promise_race ps s = (let (r, s1) = new_promise s in (r, race_elements r ps s1))"

fun all_elements :: "pid \<Rightarrow> nat \<Rightarrow> pid list \<Rightarrow> state \<Rightarrow> state" where
  "all_elements r i [] s = s"
| "all_elements r i (q # qs) s =
     (let s1 = s\<lparr>all_values := (all_values s)(r := all_values s r @ [Undefined]),
                 all_remaining := (all_remaining s)(r := Suc (all_remaining s r))\<rparr>
      in all_elements r (Suc i) qs (snd (promise_then q (AllElement r i) s1)))"

definition promise_all :: "pid list \<Rightarrow> state \<Rightarrow> pid \<times> state" where
  "promise_all ps s =
     (let (r, s1) = new_promise s;
          s2 = s1\<lparr>all_values := (all_values s1)(r := []),
                  all_remaining := (all_remaining s1)(r := 1)\<rparr>;
          s3 = all_elements r 0 ps s2;
          s4 = s3\<lparr>all_remaining := (all_remaining s3)(r := all_remaining s3 r - 1)\<rparr>
      in (r, if all_remaining s4 r = 0 then resolve_promise r (Arr (all_values s4 r)) s4
             else s4))"

subsection \<open>The event emitter\<close>

definition add_listener :: "string \<Rightarrow> bool \<Rightarrow> fn \<Rightarrow> state \<Rightarrow> state" where
  "add_listener e one f s =
     s\<lparr>listeners := listeners s @ [\<lparr>lid = next_lid s, ev_name = e, is_once = one, callback = f\<rparr>],
       next_lid := Suc (next_lid s)\<rparr>"

definition once :: "string \<Rightarrow> fn \<Rightarrow> state \<Rightarrow> state" where
  "once e f s = add_listener e True f s"

fun remove_first :: "('a \<Rightarrow> bool) \<Rightarrow> 'a list \<Rightarrow> 'a list" where
  "remove_first P [] = []"
| "remove_first P (x # xs) = (if P x then xs else x # remove_first P xs)"

text \<open>
  \<open>removeListener\<close> scans the table of the event from its end and drops the first entry
  whose function (for a one-shot entry, the wrapped function) is the given one.
\<close>

definition removeListener :: "string \<Rightarrow> fn option \<Rightarrow> state \<Rightarrow> state" where
  "removeListener e f s =
     s\<lparr>listeners := rev (remove_first (\<lambda>l. ev_name l = e \<and> Some (callback l) = f)
                                     (rev (listeners s)))\<rparr>"

definition remove_lid :: "nat \<Rightarrow> state \<Rightarrow> state" where
  "remove_lid i s = s\<lparr>listeners := filter (\<lambda>l. lid l \<noteq> i) (listeners s)\<rparr>"

subsection \<open>Calling a function object\<close>

fun call :: "fn \<Rightarrow> val list \<Rightarrow> state \<Rightarrow> val \<times> state" where
  "call Noop args s = (Undefined, s)"
| "call (User n) args s = (Undefined, s\<lparr>calls := calls s @ [(n, args)]\<rparr>)"
| "call (Resolve p) args s = (Undefined, resolve_promise p (arg0 args) s)"
| "call (OnceAnyWrapper handler) args s = (Arr args, snd (call handler [Arr args] s))"
| "call (OnceAnyCleanup events resolveCallback) args s =
     (arg0 args,
      fold (\<lambda>eventName. removeListener eventName (map_option Resolve resolveCallback)) events s)"
| "call (AfterWrapper handler) args s = (arg0 args, snd (call handler [arg0 args] s))"
| "call (AllElement r i) args s =
     (let s1 = s\<lparr>all_values := (all_values s)(r := (all_values s r)[i := arg0 args]),
                 all_remaining := (all_remaining s)(r := all_remaining s r - 1)\<rparr>
      in (Undefined,
          if all_remaining s1 r = 0 then resolve_promise r (Arr (all_values s1 r)) s1 else s1))"
| "call StartThen args s = (Ctx, s\<lparr>started := True\<rparr>)"

text \<open>One promise job: run the reaction's callback on the value, resolve the derived promise.\<close>

definition run_job :: "fn \<times> pid \<times> val \<Rightarrow> state \<Rightarrow> state" where
  "run_job j s = (case j of (f, d, v) \<Rightarrow> (let (r, s1) = call f [v] s in resolve_promise d r s1))"

definition tick :: "state \<Rightarrow> state" where
  "tick s = (case queue s of [] \<Rightarrow> s | j # js \<Rightarrow> run_job j (s\<lparr>queue := js\<rparr>))"

section \<open>The application: emit, onceAny, after, start\<close>

datatype emit_result = Returned bool | Threw

definition fire :: "val list \<Rightarrow> listener \<Rightarrow> state \<Rightarrow> state" where
  "fire args l s = snd (call (callback l) args (if is_once l then remove_lid (lid l) s else s))"

definition emit :: "string \<Rightarrow> val list \<Rightarrow> state \<Rightarrow> emit_result \<times> state" where
  "emit event args s =
     (let s1 = s\<lparr>debug_log := debug_log s @ [event]\<rparr>;
          ls = filter (\<lambda>l. ev_name l = event) (listeners s1)
      in if ls = [] then (if event = ''error'' then Threw else Returned False, s1)
         else (Returned True, fold (fire args) ls s1))"

datatype 'a one_or_many = Single 'a | Many "'a list"

fun as_list :: "'a one_or_many \<Rightarrow> 'a list" where
  "as_list (Single x) = [x]"
| "as_list (Many xs) = xs"

text \<open>A handler parameter that is left out takes the default \<open>NOOP\<close>.\<close>

definition or_noop :: "fn option \<Rightarrow> fn" where
  "or_noop handler = (case handler of None \<Rightarrow> Noop | Some f \<Rightarrow> f)"

fun onceAny_promises :: "string list \<Rightarrow> pid option \<Rightarrow> state \<Rightarrow> pid list \<times> pid option \<times> state" where
  "onceAny_promises [] resolveCallback s = ([], resolveCallback, s)"
| "onceAny_promises (eventName # rest) resolveCallback s =
     (let (p, s1) = new_promise s;
          s2 = once eventName (Resolve p) s1;
          (ps, rc, s3) = onceAny_promises rest (Some p) s2
      in (p # ps, rc, s3))"

definition onceAny :: "string one_or_many \<Rightarrow> fn option \<Rightarrow> state \<Rightarrow> pid \<times> state" where
  "onceAny events handler s =
     (let evs = as_list events;
          h = or_noop handler;
          (ps, resolveCallback, s1) = onceAny_promises evs None s;
          (r, s2) = promise_race ps s1;
          (t1, s3) = promise_then r (OnceAnyWrapper h) s2
      in promise_then t1 (OnceAnyCleanup evs resolveCallback) s3)"

datatype target = Ev string | AnyOf "string list"

fun after_promises :: "target list \<Rightarrow> state \<Rightarrow> pid list \<times> state" where
  "after_promises [] s = ([], s)"
| "after_promises (t # rest) s =
     (let (p, s1) = new_promise s;
          s2 = (case t of
                  AnyOf names \<Rightarrow> snd (onceAny (Many names) (Some (Resolve p)) s1)
                | Ev eventName \<Rightarrow> once eventName (Resolve p) s1);
          (ps, s3) = after_promises rest s2
      in (p # ps, s3))"

definition after :: "target one_or_many \<Rightarrow> fn option \<Rightarrow> state \<Rightarrow> pid \<times> state" where
  "after events handler s =
     (let evs = as_list events;
          h = or_noop handler;
          (ps, s1) = after_promises evs s;
          (r, s2) = promise_all ps s1
      in promise_then r (AfterWrapper h) s2)"

text \<open>
  Modelled from the spec: \<open>lib.Trails.bindListeners\<close>,
  \<open>lib.Trailpack.bindTrailpackPhaseListeners\<close> and
  \<open>lib.Trailpack.bindTrailpackMethodListeners\<close> are not among the sources.  They
  ``re-bind lifecycle listeners'' and ``wire phase listeners for every loaded pack''; what
  they register is given as a list of event name, one-shot flag and application callback.
\<close>

definition bind_listeners :: "(string \<times> bool \<times> nat) list \<Rightarrow> state \<Rightarrow> state" where
  "bind_listeners wiring s = fold (\<lambda>(e, one, n). add_listener e one (User n)) wiring s"

record lib_wiring =
  lifecycle_listeners :: "(string \<times> bool \<times> nat) list"
  phase_listeners :: "(string \<times> bool \<times> nat) list"
  method_listeners :: "(string \<times> bool \<times> nat) list"

text \<open>
  \<open>i18next.init\<close> is an external collaborator: it calls its callback with an error or
  with the translation function, before it returns or from a later task.
\<close>

datatype i18n_behaviour = CallbackNow i18n_result | CallbackLater i18n_result

text \<open>The callback that \<open>start\<close> passes to \<open>i18next.init\<close>; \<open>Inl\<close> is the error it throws.\<close>

definition i18n_callback :: "i18n_result \<Rightarrow> state \<Rightarrow> val + state" where
  "i18n_callback r s =
     (case r of
        InitError err \<Rightarrow> Inl err
      | InitOk t \<Rightarrow> Inr (snd (emit ''trails:start'' [] (s\<lparr>translate := t\<rparr>))))"

definition start :: "lib_wiring \<Rightarrow> i18n_behaviour \<Rightarrow> state \<Rightarrow> val + pid \<times> state" where
  "start lib i18n s =
     (let s1 = bind_listeners (lifecycle_listeners lib) s;
          s2 = bind_listeners (phase_listeners lib) s1;
          s3 = bind_listeners (method_listeners lib) s2
      in case (case i18n of
                 CallbackNow r \<Rightarrow> i18n_callback r s3
               | CallbackLater r \<Rightarrow> Inr (s3\<lparr>i18n_pending := Some r\<rparr>)) of
           Inl err \<Rightarrow> Inl err
         | Inr s4 \<Rightarrow>
             (let (p, s5) = after (Single (Ev ''trails:ready'')) None s4
              in Inr (promise_then p StartThen s5)))"

text \<open>
  What happens to a running application: an event is emitted, the runtime runs the next
  promise job, or \<open>i18next\<close> calls back (an error thrown there is fatal to the process).
\<close>

datatype action = Emit string "val list" | Tick | I18nDone

fun step :: "action \<Rightarrow> state \<Rightarrow> state" where
  "step (Emit e args) s = snd (emit e args s)"
| "step Tick s = tick s"
| "step I18nDone s =
     (case i18n_pending s of
        None \<Rightarrow> s
      | Some r \<Rightarrow>
          (case i18n_callback r (s\<lparr>i18n_pending := None\<rparr>) of
             Inl err \<Rightarrow> s\<lparr>i18n_pending := None, fatal := Some err\<rparr>
           | Inr s1 \<Rightarrow> s1))"

definition exec :: "action list \<Rightarrow> state \<Rightarrow> state" where
  "exec as s = fold step as s"

section \<open>Construction of the application object\<close>

datatype error =
    PackageNotDefinedError
  | ApiNotDefinedError
  | LoggerNotDefinedError
  | TypeError
  | PackConstructorError string

fun truthy :: "val \<Rightarrow> bool" where
  "truthy Undefined = False"
| "truthy Null = False"
| "truthy (Bool b) = b"
| "truthy (Num n) = (n \<noteq> 0)"
| "truthy (Str s) = (s \<noteq> [])"
| "truthy (Arr _) = True"
| "truthy (Obj _) = True"
| "truthy Ctx = True"

text \<open>
  A flat object with string values, as \<open>process.env\<close> and its copies are; \<open>frozen\<close> is
  set by \<open>Object.freeze\<close>.  The store keeps every such object under its address, so that
  two references to one object and two objects with equal contents stay apart.
\<close>

record env_obj =
  props :: "string \<rightharpoonup> string"
  frozen :: bool

record world =
  objects :: "nat \<Rightarrow> env_obj"
  next_obj :: nat
  instantiated :: "string list"

text \<open>The address of \<open>process.env\<close>.\<close>

definition process_env :: nat where
  "process_env = 0"

record pack =
  pack_name :: string
  pack_fails :: bool

text \<open>
  The configuration tree, as far as the constructor reads it: \<open>config.log.logger\<close>
  (\<open>Undefined\<close> when absent), \<open>config.main.packs\<close> and \<open>config.main.maxListeners\<close>.
\<close>

record raw_config =
  log_logger :: val
  main_packs :: "pack list"
  main_maxListeners :: nat

text \<open>The constructor's argument; a field that is absent reads as \<open>Undefined\<close>.\<close>

record app_def =
  pkg :: val
  api :: val
  config :: "raw_config option"

record runtime_context =
  ctx_env :: nat
  ctx_pkg :: val
  ctx_api :: val
  ctx_config :: raw_config
  ctx_loadedPacks :: "string list"
  ctx_maxListeners :: nat
  ctx_bound :: bool
  ctx_started :: bool
  ctx_stopped :: bool

text \<open>
  Modelled from the spec: \<open>lib.Trails.validateConfig\<close> is not among the sources.  It
  ``fails with a \<open>LoggerNotDefinedError\<close> when no logging collaborator is present in the
  raw tree'' and otherwise lets construction proceed.
\<close>

definition validateConfig :: "raw_config option \<Rightarrow> error + raw_config" where
  "validateConfig c =
     (case c of
        None \<Rightarrow> Inl LoggerNotDefinedError
      | Some cfg \<Rightarrow> if truthy (log_logger cfg) then Inr cfg else Inl LoggerNotDefinedError)"

text \<open>\<open>!process.env.NODE_ENV\<close>: a variable that is unset, or set to the empty string, is falsy.\<close>

definition env_falsy :: "string option \<Rightarrow> bool" where
  "env_falsy x = (case x of None \<Rightarrow> True | Some v \<Rightarrow> v = [])"

definition set_prop :: "nat \<Rightarrow> string \<Rightarrow> string \<Rightarrow> world \<Rightarrow> world" where
  "set_prop a k v w =
     w\<lparr>objects := (objects w)(a := (objects w a)\<lparr>props := (props (objects w a))(k \<mapsto> v)\<rparr>)\<rparr>"

text \<open>\<open>JSON.parse(JSON.stringify(o))\<close> on a flat object of strings: a new object, same contents.\<close>

definition json_copy :: "nat \<Rightarrow> world \<Rightarrow> nat \<times> world" where
  "json_copy a w =
     (next_obj w,
      w\<lparr>objects := (objects w)(next_obj w := \<lparr>props = props (objects w a), frozen = False\<rparr>),
        next_obj := Suc (next_obj w)\<rparr>)"

definition object_freeze :: "nat \<Rightarrow> world \<Rightarrow> world" where
  "object_freeze a w = w\<lparr>objects := (objects w)(a := (objects w a)\<lparr>frozen := True\<rparr>)\<rparr>"

text \<open>
  \<open>config.main.packs.forEach(Pack => new Pack(this))\<close>: each constructor is invoked in
  order; one that throws ends the loop and the construction.
\<close>

fun instantiate_packs :: "pack list \<Rightarrow> world \<Rightarrow> (error + string list) \<times> world" where
  "instantiate_packs [] w = (Inr [], w)"
| "instantiate_packs (p # ps) w =
     (let w1 = w\<lparr>instantiated := instantiated w @ [pack_name p]\<rparr>
      in if pack_fails p then (Inl (PackConstructorError (pack_name p)), w1)
         else (case instantiate_packs ps w1 of
                 (Inl e, w2) \<Rightarrow> (Inl e, w2)
               | (Inr names, w2) \<Rightarrow> (Inr (pack_name p # names), w2)))"

text \<open>
  \<open>Object.keys(this.packs).map(name => this.packs[name])\<close>: the packs are read back from
  the table that holds them by name, so a name that was constructed more than once is
  listed once, at the place of its first construction.
\<close>

definition loaded_packs :: "string list \<Rightarrow> string list" where
  "loaded_packs names = rev (remdups (rev names))"

definition construct :: "app_def \<Rightarrow> world \<Rightarrow> (error + runtime_context) \<times> world" where
  "construct app w =
     (if \<not> truthy (pkg app) then (Inl PackageNotDefinedError, w)
      else if \<not> truthy (api app) \<and> \<not> (True \<and> truthy (api app)) then (Inl ApiNotDefinedError, w)
      else
        let w1 = (if env_falsy (props (objects w process_env) ''NODE_ENV'')
                  then set_prop process_env ''NODE_ENV'' ''development'' w else w);
            (copy, w2) = json_copy process_env w1;
            w3 = object_freeze copy w2;
            processEnv = copy
        in case validateConfig (config app) of
             Inl e \<Rightarrow> (Inl e, w3)
           | Inr cfg \<Rightarrow>
               (case instantiate_packs (main_packs cfg) w3 of
                  (Inl e, w4) \<Rightarrow> (Inl e, w4)
                | (Inr names, w4) \<Rightarrow>
                    (Inr \<lparr>ctx_env = processEnv, ctx_pkg = pkg app, ctx_api = api app,
                          ctx_config = cfg, ctx_loadedPacks = loaded_packs names,
                          ctx_maxListeners = main_maxListeners cfg, ctx_bound = False,
                          ctx_started = False, ctx_stopped = False\<rparr>, w4)))"

text \<open>
  What code running after the constructor may try on an object of the store: an
  assignment \<open>o[k] = v\<close> or \<open>delete o[k]\<close>, in strict or in sloppy mode.  Deleting a
  property that does not exist does nothing.  On a frozen object an assignment, and the
  deletion of a property that exists, throws \<open>TypeError\<close> in strict mode and is ignored
  in sloppy mode; the object stays as it is either way.
\<close>

datatype mutation = Assign nat string string | Delete nat string

fun mutate :: "bool \<Rightarrow> mutation \<Rightarrow> world \<Rightarrow> error option \<times> world" where
  "mutate strict (Assign a k v) w =
     (if frozen (objects w a) then (if strict then Some TypeError else None, w)
      else (None, set_prop a k v w))"
| "mutate strict (Delete a k) w =
     (if props (objects w a) k = None then (None, w)
      else if frozen (objects w a) then (if strict then Some TypeError else None, w)
      else (None, w\<lparr>objects := (objects w)(a := (objects w a)\<lparr>props := (props (objects w a))(k := None)\<rparr>)\<rparr>))"

definition mutate_all :: "bool \<Rightarrow> mutation list \<Rightarrow> world \<Rightarrow> world" where
  "mutate_all strict ms w = fold (\<lambda>m w. snd (mutate strict m w)) ms w"

fun target_of :: "mutation \<Rightarrow> nat" where
  "target_of (Assign a k v) = a"
| "target_of (Delete a k) = a"

text \<open>A mutation that would change the object if nothing stopped it.\<close>

fun would_change :: "mutation \<Rightarrow> world \<Rightarrow> bool" where
  "would_change (Assign a k v) w = (props (objects w a) k \<noteq> Some v)"
| "would_change (Delete a k) w = (props (objects w a) k \<noteq> None)"

definition initial_world :: "(string \<rightharpoonup> string) \<Rightarrow> world" where
  "initial_world e =
     \<lparr>objects = (\<lambda>_. \<lparr>props = Map.empty, frozen = False\<rparr>)(process_env := \<lparr>props = e, frozen = False\<rparr>),
      next_obj = 1, instantiated = []\<rparr>"

text \<open>The store is well formed when \<open>process.env\<close> has been allocated.\<close>

definition wf_world :: "world \<Rightarrow> bool" where
  "wf_world w = (process_env < next_obj w)"

text \<open>Concrete construction inputs, after the repository's tests.\<close>

definition no_env :: "string \<rightharpoonup> string" where "no_env = Map.empty"

definition blank_node_env :: "string \<rightharpoonup> string" where "blank_node_env = [''NODE_ENV'' \<mapsto> '''']"

definition foo_env :: "string \<rightharpoonup> string" where "foo_env = [''FOO'' \<mapsto> ''bar'']"

definition silent_config :: raw_config where
  "silent_config = \<lparr>log_logger = Obj [], main_packs = [\<lparr>pack_name = ''smokesignals'', pack_fails = False\<rparr>], main_maxListeners = 128\<rparr>"

definition no_logger_config :: raw_config where
  "no_logger_config = \<lparr>log_logger = Undefined, main_packs = [\<lparr>pack_name = ''smokesignals'', pack_fails = False\<rparr>], main_maxListeners = 128\<rparr>"

definition foo_app :: app_def where
  "foo_app = \<lparr>pkg = Obj [], api = Obj [], config = Some silent_config\<rparr>"

definition foo_context :: runtime_context where
  "foo_context = \<lparr>ctx_env = 1, ctx_pkg = Obj [], ctx_api = Obj [], ctx_config = silent_config,
     ctx_loadedPacks = [''smokesignals''], ctx_maxListeners = 128, ctx_bound = False,
     ctx_started = False, ctx_stopped = False\<rparr>"

section \<open>Notions for reasoning about the runtime\<close>

definition is_pending :: "state \<Rightarrow> pid \<Rightarrow> bool" where
  "is_pending s p = (case promises s p of Pending _ \<Rightarrow> True | Fulfilled _ \<Rightarrow> False)"

definition reactions :: "state \<Rightarrow> pid \<Rightarrow> (fn \<times> pid) list" where
  "reactions s p = (case promises s p of Pending rs \<Rightarrow> rs | Fulfilled _ \<Rightarrow> [])"

definition value_of :: "state \<Rightarrow> pid \<Rightarrow> val" where
  "value_of s p = (case promises s p of Pending _ \<Rightarrow> Undefined | Fulfilled v \<Rightarrow> v)"

definition jobs_of :: "(fn \<times> pid) list \<Rightarrow> val \<Rightarrow> (fn \<times> pid \<times> val) list" where
  "jobs_of rs v = map (\<lambda>(f, d). (f, d, v)) rs"

text \<open>
  The promises a function object can resolve when it is called, the promises whose
  \<open>resolve\<close> function it can take off the listener table, and both together.
\<close>

fun resolves :: "fn \<Rightarrow> pid set" where
  "resolves (Resolve p) = {p}"
| "resolves (OnceAnyWrapper h) = resolves h"
| "resolves (AfterWrapper h) = resolves h"
| "resolves (AllElement r i) = {r}"
| "resolves f = {}"

fun unlistens :: "fn \<Rightarrow> pid set" where
  "unlistens (OnceAnyCleanup evs rc) = (if evs = [] then {} else set_option rc)"
| "unlistens (OnceAnyWrapper h) = unlistens h"
| "unlistens (AfterWrapper h) = unlistens h"
| "unlistens f = {}"

definition fn_pids :: "fn \<Rightarrow> pid set" where
  "fn_pids f = resolves f \<union> unlistens f"

text \<open>What a call returns, what it appends to the call log, and whether it sets \<open>started\<close>.\<close>

fun ret :: "fn \<Rightarrow> val list \<Rightarrow> val" where
  "ret Noop args = Undefined"
| "ret (User n) args = Undefined"
| "ret (Resolve p) args = Undefined"
| "ret (OnceAnyWrapper h) args = Arr args"
| "ret (OnceAnyCleanup evs rc) args = arg0 args"
| "ret (AfterWrapper h) args = arg0 args"
| "ret (AllElement r i) args = Undefined"
| "ret StartThen args = Ctx"

fun logged :: "fn \<Rightarrow> val list \<Rightarrow> (nat \<times> val list) list" where
  "logged (User n) args = [(n, args)]"
| "logged (OnceAnyWrapper h) args = logged h [Arr args]"
| "logged (AfterWrapper h) args = logged h [arg0 args]"
| "logged f args = []"

fun starts :: "fn \<Rightarrow> bool" where
  "starts StartThen = True"
| "starts (OnceAnyWrapper h) = starts h"
| "starts (AfterWrapper h) = starts h"
| "starts f = False"


text \<open>
  \<open>resolved_in s qs s'\<close>: from \<open>s\<close> to \<open>s'\<close> exactly the promises \<open>qs\<close> were fulfilled, in
  this order, and the job queue grew by their reactions.
\<close>

definition resolved_in :: "state \<Rightarrow> pid list \<Rightarrow> state \<Rightarrow> bool" where
  "resolved_in s qs s' \<longleftrightarrow>
     distinct qs \<and>
     (\<forall>q\<in>set qs. is_pending s q \<and> \<not> is_pending s' q) \<and>
     (\<forall>p. p \<notin> set qs \<longrightarrow> promises s' p = promises s p) \<and>
     queue s' = queue s @ concat (map (\<lambda>q. jobs_of (reactions s q) (value_of s' q)) qs)"

text \<open>The event a step emits, if any, and the emissions of a whole run.\<close>

definition emission_of :: "action \<Rightarrow> state \<Rightarrow> (string \<times> val list) option" where
  "emission_of a s =
     (case a of
        Emit e args \<Rightarrow> Some (e, args)
      | Tick \<Rightarrow> None
      | I18nDone \<Rightarrow>
          (case i18n_pending s of Some (InitOk t) \<Rightarrow> Some (''trails:start'', []) | _ \<Rightarrow> None))"

fun history :: "action list \<Rightarrow> state \<Rightarrow> (string \<times> val list) list" where
  "history [] s = []"
| "history (a # as) s =
     (case emission_of a s of None \<Rightarrow> [] | Some x \<Rightarrow> [x]) @ history as (step a s)"

text \<open>Two states that differ at most in the logger's log and the translation slots.\<close>

definition same_core :: "state \<Rightarrow> state \<Rightarrow> bool" where
  "same_core s s' \<longleftrightarrow>
     listeners s' = listeners s \<and> next_lid s' = next_lid s \<and> promises s' = promises s \<and>
     next_pid s' = next_pid s \<and> all_values s' = all_values s \<and>
     all_remaining s' = all_remaining s \<and> queue s' = queue s \<and> calls s' = calls s \<and>
     started s' = started s"

definition on_event :: "string \<Rightarrow> state \<Rightarrow> listener list" where
  "on_event e s = filter (\<lambda>l. ev_name l = e) (listeners s)"

definition jobs_for :: "pid \<Rightarrow> state \<Rightarrow> (fn \<times> pid \<times> val) list" where
  "jobs_for d s = filter (\<lambda>j. fst (snd j) = d) (queue s)"

text \<open>
  Ownership.  \<open>T\<close> singles out the reactions and jobs (a function object with the promise
  it derives) and \<open>TL\<close> the listeners that matter to some part of the state; \<open>owns T TL
  spec ours s\<close> says that all of them are known: such a reaction sits on the promise for which
  \<open>spec\<close> lists it, such a job stems from a listed reaction whose promise is fulfilled with
  the job's value, and such a listener is one of \<open>ours\<close>.
\<close>

definition owns ::
  "(fn \<Rightarrow> pid \<Rightarrow> bool) \<Rightarrow> (listener \<Rightarrow> bool) \<Rightarrow> (pid \<Rightarrow> (fn \<times> pid) option) \<Rightarrow>
   (listener \<Rightarrow> bool) \<Rightarrow> state \<Rightarrow> bool" where
  "owns T TL spec ours s \<longleftrightarrow>
     (\<forall>q f d. (f, d) \<in> set (reactions s q) \<longrightarrow> T f d \<longrightarrow> spec q = Some (f, d)) \<and>
     (\<forall>f d v. (f, d, v) \<in> set (queue s) \<longrightarrow> T f d \<longrightarrow>
        (\<exists>q. spec q = Some (f, d) \<and> promises s q = Fulfilled v)) \<and>
     (\<forall>l\<in>set (listeners s). TL l \<longrightarrow> ours l)"

text \<open>The reactions, jobs and listeners that can touch a set of promises and listener ids.\<close>

definition touches :: "pid set \<Rightarrow> fn \<Rightarrow> pid \<Rightarrow> bool" where
  "touches X f d \<longleftrightarrow> d \<in> X \<or> fn_pids f \<inter> X \<noteq> {}"

definition ltouches :: "pid set \<Rightarrow> nat set \<Rightarrow> listener \<Rightarrow> bool" where
  "ltouches X LX l \<longleftrightarrow> fn_pids (callback l) \<inter> X \<noteq> {} \<or> lid l \<in> LX"

text \<open>
  \<open>link q f d s\<close>: the reaction \<open>(f, d)\<close> of promise \<open>q\<close> is in exactly one of three places.
  While \<open>q\<close> is pending it waits in \<open>q\<close>; once \<open>q\<close> is fulfilled with \<open>v\<close> it is the one job
  for \<open>d\<close> in the queue; and after that job has run, \<open>d\<close> is fulfilled with what \<open>f\<close>
  returned on \<open>v\<close>.
\<close>

definition link :: "pid \<Rightarrow> fn \<Rightarrow> pid \<Rightarrow> state \<Rightarrow> bool" where
  "link q f d s \<longleftrightarrow>
     (case promises s q of
        Pending rs \<Rightarrow>
          filter (\<lambda>r. snd r = d) rs = [(f, d)] \<and> jobs_for d s = [] \<and> is_pending s d
      | Fulfilled v \<Rightarrow>
          (jobs_for d s = [(f, d, v)] \<and> is_pending s d) \<or>
          (jobs_for d s = [] \<and> promises s d = Fulfilled (ret f [v])))"



section \<open>What a call of onceAny leaves in the state\<close>

text \<open>
  A call \<open>onceAny(evs, h)\<close> in a state whose allocation counters stand at \<open>n\<close> (promises)
  and \<open>L\<close> (listeners) creates, for \<open>k = length evs\<close>: the member promises \<open>n + j\<close>, one per
  event name, each resolved by the one-shot listener \<open>L + j\<close>; the promise \<open>n + k\<close> of
  \<open>Promise.race\<close>; the promises \<open>n + k + 1 + j\<close> derived by the race from its members; the
  promise \<open>n + 2k + 1\<close> derived by the handler wrapper; and the promise \<open>n + 2k + 2\<close> derived
  by the cleanup, which is the one returned.
\<close>

definition oa_X :: "nat \<Rightarrow> string list \<Rightarrow> pid set" where
  "oa_X n evs = {n ..< n + 2 * length evs + 3}"

definition oa_LX :: "nat \<Rightarrow> string list \<Rightarrow> nat set" where
  "oa_LX L evs = {L ..< L + length evs}"

definition oa_race :: "nat \<Rightarrow> string list \<Rightarrow> pid" where
  "oa_race n evs = n + length evs"

definition oa_handled :: "nat \<Rightarrow> string list \<Rightarrow> pid" where
  "oa_handled n evs = n + 2 * length evs + 1"

definition oa_result :: "nat \<Rightarrow> string list \<Rightarrow> pid" where
  "oa_result n evs = n + 2 * length evs + 2"

definition oa_rc :: "nat \<Rightarrow> string list \<Rightarrow> pid option" where
  "oa_rc n evs = (if evs = [] then None else Some (n + length evs - 1))"

definition oa_spec :: "nat \<Rightarrow> string list \<Rightarrow> fn \<Rightarrow> pid \<Rightarrow> (fn \<times> pid) option" where
  "oa_spec n evs h q =
     (if n \<le> q \<and> q < n + length evs then Some (Resolve (oa_race n evs), q + length evs + 1)
      else if q = oa_race n evs then Some (OnceAnyWrapper h, oa_handled n evs)
      else if q = oa_handled n evs then Some (OnceAnyCleanup evs (oa_rc n evs), oa_result n evs)
      else None)"

definition oa_listener :: "nat \<Rightarrow> nat \<Rightarrow> string list \<Rightarrow> nat \<Rightarrow> listener" where
  "oa_listener n L evs j =
     \<lparr>lid = L + j, ev_name = evs ! j, is_once = True, callback = Resolve (n + j)\<rparr>"

definition oa_ours :: "nat \<Rightarrow> nat \<Rightarrow> string list \<Rightarrow> listener \<Rightarrow> bool" where
  "oa_ours n L evs l \<longleftrightarrow> (\<exists>j<length evs. l = oa_listener n L evs j)"

text \<open>
  The invariant of one call: the state owns the call's promises and listeners, every
  reaction the call installed is linked, and while the race is undecided a pending member
  still has its listener.
\<close>

definition oa_inv :: "nat \<Rightarrow> nat \<Rightarrow> string list \<Rightarrow> fn \<Rightarrow> state \<Rightarrow> bool" where
  "oa_inv n L evs h s \<longleftrightarrow>
     owns (touches (oa_X n evs)) (ltouches (oa_X n evs) (oa_LX L evs)) (oa_spec n evs h)
       (oa_ours n L evs) s \<and>
     (\<forall>q f d. oa_spec n evs h q = Some (f, d) \<longrightarrow> link q f d s) \<and>
     (\<forall>j<length evs. is_pending s (n + j) \<and> is_pending s (oa_race n evs) \<longrightarrow>
        oa_listener n L evs j \<in> set (listeners s))"

text \<open>
  The first emission of one of the event names, and its first argument.  \<open>oa_ghost\<close> ties
  the race to the emissions so far: before any of the names was emitted every member and
  the race are pending; afterwards the race is fulfilled with the first argument of the
  first such emission, or the job that will fulfil it so is the first of its kind in the
  queue.
\<close>

definition hits :: "string list \<Rightarrow> (string \<times> val list) list \<Rightarrow> (string \<times> val list) list" where
  "hits evs hist = filter (\<lambda>x. fst x \<in> set evs) hist"

definition first_hit :: "string list \<Rightarrow> (string \<times> val list) list \<Rightarrow> val option" where
  "first_hit evs hist = (case hits evs hist of [] \<Rightarrow> None | x # _ \<Rightarrow> Some (arg0 (snd x)))"

definition race_jobs :: "pid \<Rightarrow> state \<Rightarrow> (fn \<times> pid \<times> val) list" where
  "race_jobs r s = filter (\<lambda>j. fst j = Resolve r) (queue s)"

definition oa_ghost :: "nat \<Rightarrow> string list \<Rightarrow> (string \<times> val list) list \<Rightarrow> state \<Rightarrow> bool" where
  "oa_ghost n evs hist s \<longleftrightarrow>
     (case first_hit evs hist of
        None \<Rightarrow> (\<forall>j<length evs. is_pending s (n + j)) \<and> is_pending s (oa_race n evs)
      | Some w \<Rightarrow>
          promises s (oa_race n evs) = Fulfilled w \<or>
          (is_pending s (oa_race n evs) \<and>
           (\<exists>x rest. race_jobs (oa_race n evs) s = (Resolve (oa_race n evs), x, w) # rest)))"

text \<open>A state in which nothing refers to a promise or listener that is not allocated yet.\<close>

definition wf_state :: "state \<Rightarrow> bool" where
  "wf_state s \<longleftrightarrow>
     (\<forall>p. next_pid s \<le> p \<longrightarrow> promises s p = Pending []) \<and>
     (\<forall>q f d. (f, d) \<in> set (reactions s q) \<longrightarrow> d < next_pid s \<and> (\<forall>p\<in>fn_pids f. p < next_pid s)) \<and>
     (\<forall>f d v. (f, d, v) \<in> set (queue s) \<longrightarrow> d < next_pid s \<and> (\<forall>p\<in>fn_pids f. p < next_pid s)) \<and>
     (\<forall>l\<in>set (listeners s). lid l < next_lid s \<and> (\<forall>p\<in>fn_pids (callback l). p < next_pid s))"

definition unalloc :: "state \<Rightarrow> bool" where
  "unalloc s \<longleftrightarrow> (\<forall>p. next_pid s \<le> p \<longrightarrow> promises s p = Pending [])"

text \<open>The promise heap after \<open>Promise.race\<close> has visited the members from the \<open>i\<close>-th on.\<close>

definition race_promises ::
  "nat \<Rightarrow> nat \<Rightarrow> nat \<Rightarrow> pid \<Rightarrow> nat \<Rightarrow> (pid \<Rightarrow> pstate) \<Rightarrow> pid \<Rightarrow> pstate" where
  "race_promises n i k r D old p =
     (if n + i \<le> p \<and> p < n + k then Pending [(Resolve r, D + (p - n))] else old p)"

text \<open>The state after \<open>onceAny(evs, h)\<close>, in closed form.\<close>

definition oa_promises :: "nat \<Rightarrow> string list \<Rightarrow> fn \<Rightarrow> (pid \<Rightarrow> pstate) \<Rightarrow> pid \<Rightarrow> pstate" where
  "oa_promises n evs h old p =
     (if p \<in> oa_X n evs
      then Pending (case oa_spec n evs h p of None \<Rightarrow> [] | Some r \<Rightarrow> [r])
      else old p)"

definition oa_state :: "string list \<Rightarrow> fn \<Rightarrow> state \<Rightarrow> state" where
  "oa_state evs h s =
     s\<lparr>promises := oa_promises (next_pid s) evs h (promises s),
       next_pid := next_pid s + 2 * length evs + 3,
       next_lid := next_lid s + length evs,
       listeners := listeners s @ map (oa_listener (next_pid s) (next_lid s) evs) [0..<length evs]\<rparr>"

section \<open>What a call of after leaves in the state\<close>

text \<open>
  A call \<open>after(ts, h)\<close> visits its elements in order.  Element \<open>i\<close> gets the promise
  \<open>ebase n ts i\<close>; a plain event name adds one one-shot listener that resolves it, a group
  adds a whole \<open>onceAny\<close> call right behind it whose handler resolves it.  \<open>tsize\<close> and
  \<open>lsize\<close> count the promises and listeners one element allocates.  \<open>Promise.all\<close> then
  allocates the aggregate promise \<open>af_all\<close> and one derived promise per element, and the
  handler wrapper derives the promise \<open>af_result\<close> that is returned.
\<close>

definition tsize :: "target \<Rightarrow> nat" where
  "tsize t = (case t of Ev e \<Rightarrow> 1 | AnyOf g \<Rightarrow> 2 * length g + 4)"

definition lsize :: "target \<Rightarrow> nat" where
  "lsize t = (case t of Ev e \<Rightarrow> 1 | AnyOf g \<Rightarrow> length g)"

definition ebase :: "nat \<Rightarrow> target list \<Rightarrow> nat \<Rightarrow> pid" where
  "ebase n ts i = n + sum_list (map tsize (take i ts))"

definition lbase :: "nat \<Rightarrow> target list \<Rightarrow> nat \<Rightarrow> nat" where
  "lbase L ts i = L + sum_list (map lsize (take i ts))"

definition af_all :: "nat \<Rightarrow> target list \<Rightarrow> pid" where
  "af_all n ts = ebase n ts (length ts)"

definition af_result :: "nat \<Rightarrow> target list \<Rightarrow> pid" where
  "af_result n ts = af_all n ts + length ts + 1"

definition af_X :: "nat \<Rightarrow> target list \<Rightarrow> pid set" where
  "af_X n ts = {n ..< af_all n ts + length ts + 2}"


text \<open>The element whose promises include \<open>q\<close>.\<close>

definition el_of :: "nat \<Rightarrow> target list \<Rightarrow> pid \<Rightarrow> nat option" where
  "el_of n ts q =
     (case filter (\<lambda>i. ebase n ts i \<le> q \<and> q < ebase n ts (Suc i)) [0..<length ts] of
        [] \<Rightarrow> None
      | i # _ \<Rightarrow> Some i)"

text \<open>The reactions of one element before and after \<open>Promise.all\<close> has visited it.\<close>

definition group_spec :: "pid \<Rightarrow> target \<Rightarrow> pid \<Rightarrow> (fn \<times> pid) option" where
  "group_spec b t q =
     (case t of Ev e \<Rightarrow> None | AnyOf g \<Rightarrow> oa_spec (Suc b) g (Resolve b) q)"

definition el_spec :: "pid \<Rightarrow> pid \<Rightarrow> nat \<Rightarrow> target \<Rightarrow> pid \<Rightarrow> (fn \<times> pid) option" where
  "el_spec A b i t q = (if q = b then Some (AllElement A i, A + 1 + i) else group_spec b t q)"

definition els_spec :: "nat \<Rightarrow> target list \<Rightarrow> pid \<Rightarrow> (fn \<times> pid) option" where
  "els_spec n ts q =
     (case el_of n ts q of None \<Rightarrow> None | Some i \<Rightarrow> group_spec (ebase n ts i) (ts ! i) q)"

definition after_spec :: "nat \<Rightarrow> target list \<Rightarrow> fn \<Rightarrow> pid \<Rightarrow> (fn \<times> pid) option" where
  "after_spec n ts h q =
     (if q = af_all n ts then Some (AfterWrapper h, af_result n ts)
      else case el_of n ts q of
             None \<Rightarrow> None
           | Some i \<Rightarrow> el_spec (af_all n ts) (ebase n ts i) i (ts ! i) q)"

definition ev_listener :: "nat \<Rightarrow> nat \<Rightarrow> string \<Rightarrow> listener" where
  "ev_listener b L e = \<lparr>lid = L, ev_name = e, is_once = True, callback = Resolve b\<rparr>"

definition el_listeners :: "nat \<Rightarrow> nat \<Rightarrow> target \<Rightarrow> listener list" where
  "el_listeners b L t =
     (case t of
        Ev e \<Rightarrow> [ev_listener b L e]
      | AnyOf g \<Rightarrow> map (oa_listener (Suc b) L g) [0..<length g])"

definition af_listeners :: "nat \<Rightarrow> nat \<Rightarrow> target list \<Rightarrow> listener list" where
  "af_listeners n L ts =
     concat (map (\<lambda>i. el_listeners (ebase n ts i) (lbase L ts i) (ts ! i)) [0..<length ts])"









text \<open>The state after \<open>after(ts, h)\<close>, in closed form.\<close>

definition opt_list :: "'a option \<Rightarrow> 'a list" where
  "opt_list x = (case x of None \<Rightarrow> [] | Some r \<Rightarrow> [r])"

definition els_promises :: "nat \<Rightarrow> target list \<Rightarrow> (pid \<Rightarrow> pstate) \<Rightarrow> pid \<Rightarrow> pstate" where
  "els_promises n ts old p =
     (if n \<le> p \<and> p < af_all n ts then Pending (opt_list (els_spec n ts p)) else old p)"

definition els_state :: "target list \<Rightarrow> state \<Rightarrow> state" where
  "els_state ts s =
     s\<lparr>promises := els_promises (next_pid s) ts (promises s),
       next_pid := af_all (next_pid s) ts,
       next_lid := lbase (next_lid s) ts (length ts),
       listeners := listeners s @ af_listeners (next_pid s) (next_lid s) ts\<rparr>"

definition af_promises :: "nat \<Rightarrow> target list \<Rightarrow> fn \<Rightarrow> (pid \<Rightarrow> pstate) \<Rightarrow> pid \<Rightarrow> pstate" where
  "af_promises n ts h old p =
     (if p \<in> af_X n ts
      then (if ts = [] \<and> p = n then Fulfilled (Arr [])
            else Pending (opt_list (after_spec n ts h p)))
      else old p)"

definition af_state :: "target list \<Rightarrow> fn \<Rightarrow> state \<Rightarrow> state" where
  "af_state ts h s =
     s\<lparr>promises := af_promises (next_pid s) ts h (promises s),
       next_pid := af_all (next_pid s) ts + length ts + 2,
       next_lid := lbase (next_lid s) ts (length ts),
       listeners := listeners s @ af_listeners (next_pid s) (next_lid s) ts,
       all_values := (all_values s)(af_all (next_pid s) ts := replicate (length ts) Undefined),
       all_remaining := (all_remaining s)(af_all (next_pid s) ts := length ts),
       queue := queue s @
         (if ts = [] then [(AfterWrapper h, af_result (next_pid s) ts, Arr [])] else [])\<rparr>"

text \<open>
  The heap after \<open>Promise.all\<close> has visited the element promises \<open>E i\<close>, \<dots>,
  \<open>E (m - 1)\<close> for the aggregate promise \<open>r\<close>.
\<close>

definition all_promises ::
  "pid \<Rightarrow> (nat \<Rightarrow> pid) \<Rightarrow> nat \<Rightarrow> nat \<Rightarrow> (pid \<Rightarrow> pstate) \<Rightarrow> pid \<Rightarrow> pstate" where
  "all_promises r E i m old p =
     (case filter (\<lambda>j. E j = p) [i..<m] of
        [] \<Rightarrow> old p
      | j # _ \<Rightarrow> Pending [(AllElement r j, r + 1 + j)])"

text \<open>
  \<open>then_inv q f d s\<close>: the only reaction or job that can settle \<open>d\<close> is the reaction
  \<open>(f, d)\<close> of \<open>q\<close>, and it is linked.
\<close>

definition then_inv :: "pid \<Rightarrow> fn \<Rightarrow> pid \<Rightarrow> state \<Rightarrow> bool" where
  "then_inv q f d s \<longleftrightarrow>
     owns (touches {d}) (ltouches {d} {}) (\<lambda>q'. if q' = q then Some (f, d) else None)
       (\<lambda>l. False) s \<and>
     link q f d s"

text \<open>
  Node's emitter emits \<open>newListener\<close> on itself before it adds a listener and
  \<open>removeListener\<close> after it has removed one, provided a listener is registered under
  that name.  These emissions are not part of \<open>once\<close>, \<open>fire\<close> and \<open>removeListener\<close>
  above; they do not occur on an emitter that has no listener under either name.
\<close>

definition node_events :: "string set" where
  "node_events = {''newListener'', ''removeListener''}"

definition plain_emitter :: "state \<Rightarrow> bool" where
  "plain_emitter s \<longleftrightarrow> (\<forall>l\<in>set (listeners s). ev_name l \<notin> node_events)"

section \<open>Notions the statements about after use\<close>











section \<open>Concrete runs\<close>

text \<open>
  \<open>onceAny(['a', 'b'])\<close> on a fresh application, then \<open>emit('b', 1)\<close> and the three promise
  jobs that follow.
\<close>

definition leak_call :: "pid \<times> state" where
  "leak_call = onceAny (Many [''a'', ''b'']) None fresh_state"

definition leak_run :: state where
  "leak_run = exec [Emit ''b'' [Num 1], Tick, Tick, Tick] (snd leak_call)"

text \<open>
  \<open>onceAny(['a', 'b'])\<close> on a fresh application, then \<open>emit('a', 1, 2)\<close> and the three
  promise jobs that follow.
\<close>

definition two_args_call :: "pid \<times> state" where
  "two_args_call = onceAny (Many [''a'', ''b'']) None fresh_state"

definition two_args_trace :: "action list" where
  "two_args_trace = [Emit ''a'' [Num 1, Num 2], Tick, Tick, Tick]"

definition two_args_run :: state where
  "two_args_run = exec two_args_trace (snd two_args_call)"

section \<open>Construction: configuration errors and the environment\<close>

lemmas construct_defs = construct_def loaded_packs_def validateConfig_def env_falsy_def set_prop_def json_copy_def
  object_freeze_def process_env_def

lemma instantiate_packs_objects:
  "instantiate_packs ps w = (r, w') \<Longrightarrow> objects w' = objects w \<and> next_obj w' = next_obj w"
proof (induction ps arbitrary: w r w')
  case Nil
  then show ?case by simp
next
  case (Cons p ps)
  let ?w1 = "w\<lparr>instantiated := instantiated w @ [pack_name p]\<rparr>"
  show ?case
  proof (cases "pack_fails p")
    case True
    with Cons.prems show ?thesis by (auto simp: Let_def)
  next
    case False
    obtain r2 w2 where rec: "instantiate_packs ps ?w1 = (r2, w2)" by (cases "instantiate_packs ps ?w1")
    from Cons.IH [OF rec] have "objects w2 = objects w \<and> next_obj w2 = next_obj w" by simp
    moreover from Cons.prems False rec have "w' = w2"
      by (auto simp: Let_def split: sum.splits)
    ultimately show ?thesis by simp
  qed
qed

text \<open>
  Claim C6.  A construction input without \<open>pkg\<close> throws \<open>PackageNotDefinedError\<close>; with
  \<open>pkg\<close> but without \<open>api\<close> it throws \<open>ApiNotDefinedError\<close>; with both but without a
  logger (no configuration at all, or one whose \<open>log.logger\<close> is absent) it throws
  \<open>LoggerNotDefinedError\<close>.  Each time the constructor returns the error and no context,
  and no pack constructor has been invoked: in the first two cases the world is untouched,
  in the third the list of instantiated packs is what it was.
\<close>

theorem construct_configuration_errors:
  "(pkg app = Undefined \<longrightarrow> construct app w = (Inl PackageNotDefinedError, w)) \<and>
   (truthy (pkg app) \<and> api app = Undefined \<longrightarrow> construct app w = (Inl ApiNotDefinedError, w)) \<and>
   (truthy (pkg app) \<and> truthy (api app) \<and>
      (config app = None \<or> (\<exists>cfg. config app = Some cfg \<and> log_logger cfg = Undefined)) \<longrightarrow>
      fst (construct app w) = Inl LoggerNotDefinedError \<and>
      instantiated (snd (construct app w)) = instantiated w)"
  by (auto simp: construct_defs Let_def split: prod.splits)

theorem construct_configuration_errors_witness:
  "construct \<lparr>pkg = Undefined, api = Obj [], config = Some silent_config\<rparr> (initial_world no_env)
     = (Inl PackageNotDefinedError, initial_world no_env) \<and>
   construct \<lparr>pkg = Obj [], api = Undefined, config = Some silent_config\<rparr> (initial_world no_env)
     = (Inl ApiNotDefinedError, initial_world no_env) \<and>
   fst (construct \<lparr>pkg = Obj [], api = Obj [], config = Some no_logger_config\<rparr> (initial_world no_env))
     = Inl LoggerNotDefinedError \<and>
   instantiated (snd (construct \<lparr>pkg = Obj [], api = Obj [], config = Some no_logger_config\<rparr> (initial_world no_env))) = []"
  using construct_configuration_errors [of "\<lparr>pkg = Undefined, api = Obj [], config = Some silent_config\<rparr>" "initial_world no_env"]
        construct_configuration_errors [of "\<lparr>pkg = Obj [], api = Undefined, config = Some silent_config\<rparr>" "initial_world no_env"]
        construct_configuration_errors [of "\<lparr>pkg = Obj [], api = Obj [], config = Some no_logger_config\<rparr>" "initial_world no_env"]
  by (simp add: no_logger_config_def initial_world_def)

text \<open>
  Claim C7 does not hold as stated.  A construction call without \<open>pkg\<close> throws before the
  run mode is looked at, so an unset \<open>NODE_ENV\<close> stays unset; and a \<open>NODE_ENV\<close> that is set
  to the empty string is overwritten with \<open>development\<close>.
\<close>

theorem node_env_counterexample:
  "props (objects (snd (construct \<lparr>pkg = Undefined, api = Obj [], config = Some silent_config\<rparr>
        (initial_world no_env))) process_env) ''NODE_ENV'' = None \<and>
   props (objects (snd (construct \<lparr>pkg = Obj [], api = Obj [], config = Some silent_config\<rparr>
        (initial_world blank_node_env))) process_env) ''NODE_ENV'' = Some ''development''"
  by (simp add: construct_defs silent_config_def initial_world_def no_env_def blank_node_env_def
        split: prod.splits)

text \<open>
  Claim C7, amended.  A construction call that fails the \<open>pkg\<close> or \<open>api\<close> check changes
  nothing.  One that passes both sets \<open>NODE_ENV\<close> to \<open>development\<close> when the variable is
  unset or empty and leaves it as it is otherwise; every other variable of \<open>process.env\<close>
  and every other object that existed keeps its contents.
\<close>

theorem construct_node_env:
  assumes "wf_world w"
  shows "(\<not> truthy (pkg app) \<or> \<not> truthy (api app) \<longrightarrow> snd (construct app w) = w) \<and>
   (truthy (pkg app) \<and> truthy (api app) \<longrightarrow>
      props (objects (snd (construct app w)) process_env) ''NODE_ENV'' =
        (if env_falsy (props (objects w process_env) ''NODE_ENV'') then Some ''development''
         else props (objects w process_env) ''NODE_ENV'') \<and>
      (\<forall>k. k \<noteq> ''NODE_ENV'' \<longrightarrow>
         props (objects (snd (construct app w)) process_env) k = props (objects w process_env) k) \<and>
      (\<forall>a. a < next_obj w \<and> a \<noteq> process_env \<longrightarrow> objects (snd (construct app w)) a = objects w a))"
  using assms
  by (auto simp: construct_defs wf_world_def Let_def
           split: prod.splits sum.splits dest!: instantiate_packs_objects)

lemma mutate_frozen:
  "frozen (objects w a) \<Longrightarrow> objects (snd (mutate strict m w)) a = objects w a"
  by (cases m) (auto simp: set_prop_def)

lemma mutate_all_frozen:
  "frozen (objects w a) \<Longrightarrow> objects (mutate_all strict ms w) a = objects w a"
  unfolding mutate_all_def
proof (induction ms arbitrary: w)
  case Nil
  then show ?case by simp
next
  case (Cons m ms)
  have "objects (snd (mutate strict m w)) a = objects w a"
    using Cons.prems by (rule mutate_frozen)
  with Cons show ?case by simp
qed

lemma mutate_rejected:
  "frozen (objects w (target_of m)) \<Longrightarrow> would_change m w \<Longrightarrow>
   mutate strict m w = (if strict then Some TypeError else None, w)"
  by (cases m) auto

lemma construct_snapshot:
  assumes "wf_world w" and "construct app w = (Inr c, w')"
  shows "ctx_env c = next_obj w \<and> frozen (objects w' (ctx_env c)) \<and>
         props (objects w' (ctx_env c)) = props (objects w' process_env)"
  using assms
  by (auto simp: construct_defs wf_world_def Let_def
           split: prod.splits sum.splits if_splits dest!: instantiate_packs_objects)

text \<open>
  Claim C8.  The \<open>env\<close> attribute of a constructed context is an object of its own, with
  the contents \<open>process.env\<close> has at construction.  Whatever assignments and deletions
  run afterwards, on \<open>process.env\<close> or on any other object, in strict or sloppy mode, the
  snapshot keeps its contents; and each attempt to change the snapshot itself is rejected:
  it throws \<open>TypeError\<close> in strict mode, is ignored in sloppy mode, and leaves the world
  as it was.
\<close>

theorem env_snapshot_immutable:
  assumes "wf_world w" and "construct app w = (Inr c, w')"
  shows "ctx_env c \<noteq> process_env \<and>
         props (objects w' (ctx_env c)) = props (objects w' process_env) \<and>
         props (objects (mutate_all strict ms w') (ctx_env c)) = props (objects w' (ctx_env c)) \<and>
         (target_of m = ctx_env c \<and> would_change m (mutate_all strict ms w') \<longrightarrow>
            mutate True m (mutate_all strict ms w') = (Some TypeError, mutate_all strict ms w') \<and>
            mutate False m (mutate_all strict ms w') = (None, mutate_all strict ms w'))"
proof -
  from construct_snapshot [OF assms]
  have a: "ctx_env c = next_obj w" and f: "frozen (objects w' (ctx_env c))"
    and p: "props (objects w' (ctx_env c)) = props (objects w' process_env)" by auto
  from a assms(1) have ne: "ctx_env c \<noteq> process_env" by (simp add: wf_world_def)
  have keep: "objects (mutate_all strict ms w') (ctx_env c) = objects w' (ctx_env c)"
    using f by (rule mutate_all_frozen)
  have rej: "target_of m = ctx_env c \<and> would_change m (mutate_all strict ms w') \<longrightarrow>
            mutate True m (mutate_all strict ms w') = (Some TypeError, mutate_all strict ms w') \<and>
            mutate False m (mutate_all strict ms w') = (None, mutate_all strict ms w')"
    using f keep by (auto simp: mutate_rejected)
  from ne p keep rej show ?thesis by simp
qed

theorem env_snapshot_immutable_witness:
  "wf_world (initial_world foo_env) \<and>
   fst (construct foo_app (initial_world foo_env)) = Inr foo_context \<and>
   props (objects (mutate_all True [Assign process_env ''FOO'' ''baz'']
      (snd (construct foo_app (initial_world foo_env)))) (ctx_env foo_context)) ''FOO'' = Some ''bar'' \<and>
   fst (mutate True (Assign (ctx_env foo_context) ''FOO'' ''1'')
      (mutate_all True [Assign process_env ''FOO'' ''baz'']
      (snd (construct foo_app (initial_world foo_env))))) = Some TypeError"
proof -
  define W where "W = snd (construct foo_app (initial_world foo_env))"
  define ms where "ms = [Assign process_env ''FOO'' ''baz'']"
  define m where "m = Assign (ctx_env foo_context) ''FOO'' ''1''"
  have w: "wf_world (initial_world foo_env)"
    by (simp add: wf_world_def initial_world_def process_env_def)
  have fc: "fst (construct foo_app (initial_world foo_env)) = Inr foo_context"
    by (simp add: construct_defs foo_app_def foo_context_def silent_config_def initial_world_def
        foo_env_def split: prod.splits)
  have c: "construct foo_app (initial_world foo_env) = (Inr foo_context, W)"
    unfolding W_def using fc by (metis prod.collapse)
  have snap: "props (objects W (ctx_env foo_context)) ''FOO'' = Some ''bar''"
    unfolding W_def
    by (simp add: construct_defs foo_app_def foo_context_def silent_config_def initial_world_def
        foo_env_def split: prod.splits)
  note T = env_snapshot_immutable [OF w c, of True ms m]
  from T have keep: "props (objects (mutate_all True ms W) (ctx_env foo_context)) =
      props (objects W (ctx_env foo_context))" by blast
  have ch: "target_of m = ctx_env foo_context \<and> would_change m (mutate_all True ms W)"
    using keep snap by (simp add: m_def)
  with T have "mutate True m (mutate_all True ms W) = (Some TypeError, mutate_all True ms W)"
    by blast
  then have rej: "fst (mutate True m (mutate_all True ms W)) = Some TypeError" by simp
  from w fc keep snap rej show ?thesis
    unfolding W_def ms_def m_def by simp
qed

theorem construct_node_env_witness:
  "wf_world (initial_world foo_env) \<and>
   props (objects (snd (construct foo_app (initial_world foo_env))) process_env) ''NODE_ENV''
     = Some ''development'' \<and>
   props (objects (snd (construct foo_app (initial_world foo_env))) process_env) ''FOO''
     = Some ''bar''"
proof -
  have w: "wf_world (initial_world foo_env)"
    by (simp add: wf_world_def initial_world_def process_env_def)
  have t: "truthy (pkg foo_app) \<and> truthy (api foo_app)" by (simp add: foo_app_def)
  have e: "props (objects (initial_world foo_env) process_env) ''NODE_ENV'' = None"
    "props (objects (initial_world foo_env) process_env) ''FOO'' = Some ''bar''"
    by (simp_all add: initial_world_def foo_env_def)
  from construct_node_env [OF w, of foo_app] t e w show ?thesis
    by (simp add: env_falsy_def)
qed

section \<open>The runtime: what a call, a job and an emission can change\<close>

lemma is_pending_simps [simp]:
  "promises s p = Pending rs \<Longrightarrow> is_pending s p"
  "promises s p = Fulfilled v \<Longrightarrow> \<not> is_pending s p"
  by (simp_all add: is_pending_def)

lemma reactions_simps [simp]:
  "promises s p = Pending rs \<Longrightarrow> reactions s p = rs"
  "promises s p = Fulfilled v \<Longrightarrow> reactions s p = []"
  by (simp_all add: reactions_def)

lemma value_of_simps [simp]:
  "promises s p = Fulfilled v \<Longrightarrow> value_of s p = v"
  by (simp add: value_of_def)

lemma is_pending_cases:
  obtains rs where "promises s p = Pending rs" "is_pending s p" "reactions s p = rs"
  | v where "promises s p = Fulfilled v" "\<not> is_pending s p" "value_of s p = v"
  by (cases "promises s p") auto

lemma not_pending_reactions [simp]: "\<not> is_pending s p \<Longrightarrow> reactions s p = []"
  by (cases "promises s p") auto

lemma pending_eq: "is_pending s p \<Longrightarrow> promises s p = Pending (reactions s p)"
  by (cases "promises s p") auto

lemma not_pending_eq: "\<not> is_pending s p \<Longrightarrow> promises s p = Fulfilled (value_of s p)"
  by (cases "promises s p") auto

lemma promises_cong:
  "promises s' p = promises s p \<Longrightarrow>
   is_pending s' p = is_pending s p \<and> reactions s' p = reactions s p \<and> value_of s' p = value_of s p"
  by (simp add: is_pending_def reactions_def value_of_def)

subsection \<open>Resolving a promise\<close>

lemma resolve_promise_pending:
  "promises s p = Pending rs \<Longrightarrow>
   resolve_promise p v s = s\<lparr>promises := (promises s)(p := Fulfilled v), queue := queue s @ jobs_of rs v\<rparr>"
  by (simp add: resolve_promise_def jobs_of_def)

lemma resolve_promise_settled:
  "\<not> is_pending s p \<Longrightarrow> resolve_promise p v s = s"
  by (cases "promises s p") (auto simp: resolve_promise_def)

lemma resolve_promise_fields [simp]:
  "listeners (resolve_promise p v s) = listeners s"
  "next_lid (resolve_promise p v s) = next_lid s"
  "next_pid (resolve_promise p v s) = next_pid s"
  "all_values (resolve_promise p v s) = all_values s"
  "all_remaining (resolve_promise p v s) = all_remaining s"
  "calls (resolve_promise p v s) = calls s"
  "debug_log (resolve_promise p v s) = debug_log s"
  "started (resolve_promise p v s) = started s"
  "translate (resolve_promise p v s) = translate s"
  "i18n_pending (resolve_promise p v s) = i18n_pending s"
  "fatal (resolve_promise p v s) = fatal s"
  by (simp_all add: resolve_promise_def split: pstate.splits)

lemma resolve_promise_not_pending [simp]: "\<not> is_pending (resolve_promise p v s) p"
  by (cases "promises s p") (auto simp: resolve_promise_def is_pending_def)

lemma resolve_promise_value:
  "is_pending s p \<Longrightarrow> promises (resolve_promise p v s) p = Fulfilled v"
  by (cases "promises s p") (auto simp: resolve_promise_def)

lemma resolve_promise_other:
  "q \<noteq> p \<Longrightarrow> promises (resolve_promise p v s) q = promises s q"
  by (cases "promises s p") (auto simp: resolve_promise_def)

subsection \<open>The order of resolutions\<close>

lemma resolved_in_refl: "resolved_in s [] s"
  by (simp add: resolved_in_def)

lemma resolved_in_same:
  "promises s1 = promises s \<Longrightarrow> queue s1 = queue s \<Longrightarrow> resolved_in s [] s1"
  by (simp add: resolved_in_def)

lemma resolved_in_cong_left:
  "promises s1 = promises s \<Longrightarrow> queue s1 = queue s \<Longrightarrow> resolved_in s1 qs s' = resolved_in s qs s'"
  by (simp add: resolved_in_def is_pending_def reactions_def)

lemma resolved_in_trans:
  assumes A: "resolved_in s qs s'" and B: "resolved_in s' qs' s''"
  shows "resolved_in s (qs @ qs') s''"
proof -
  have disj: "set qs \<inter> set qs' = {}"
    using A B by (auto simp: resolved_in_def)
  have same1: "\<And>q. q \<in> set qs' \<Longrightarrow> promises s' q = promises s q"
    using A disj by (auto simp: resolved_in_def)
  have same2: "\<And>q. q \<in> set qs \<Longrightarrow> promises s'' q = promises s' q"
    using B disj by (auto simp: resolved_in_def)
  have d: "distinct (qs @ qs')"
    using A B disj by (auto simp: resolved_in_def)
  have pend: "\<forall>q\<in>set (qs @ qs'). is_pending s q \<and> \<not> is_pending s'' q"
  proof
    fix q assume "q \<in> set (qs @ qs')"
    then consider "q \<in> set qs" | "q \<in> set qs'" by auto
    then show "is_pending s q \<and> \<not> is_pending s'' q"
    proof cases
      case 1
      with A same2 [OF 1] show ?thesis
        by (auto simp: resolved_in_def is_pending_def)
    next
      case 2
      with B same1 [OF 2] show ?thesis
        by (auto simp: resolved_in_def is_pending_def)
    qed
  qed
  have frame: "\<forall>p. p \<notin> set (qs @ qs') \<longrightarrow> promises s'' p = promises s p"
    using A B by (auto simp: resolved_in_def)
  have m1: "map (\<lambda>q. jobs_of (reactions s q) (value_of s' q)) qs =
            map (\<lambda>q. jobs_of (reactions s q) (value_of s'' q)) qs"
    by (rule map_cong) (auto simp: value_of_def same2)
  have m2: "map (\<lambda>q. jobs_of (reactions s' q) (value_of s'' q)) qs' =
            map (\<lambda>q. jobs_of (reactions s q) (value_of s'' q)) qs'"
    by (rule map_cong) (auto simp: reactions_def same1)
  have q: "queue s'' = queue s @ concat (map (\<lambda>q. jobs_of (reactions s q) (value_of s'' q)) (qs @ qs'))"
    using A B by (simp add: resolved_in_def m1 m2)
  from d pend frame q show ?thesis unfolding resolved_in_def by blast
qed

lemma resolve_promise_resolved_in:
  "resolved_in s (if is_pending s p then [p] else []) (resolve_promise p v s)"
proof (cases "promises s p")
  case (Pending rs)
  then show ?thesis
    by (simp add: resolved_in_def resolve_promise_pending)
next
  case (Fulfilled u)
  then show ?thesis
    by (simp add: resolve_promise_settled resolved_in_refl)
qed

lemma resolve_promise_resolved_ex:
  "\<exists>qs. resolved_in s qs (resolve_promise p v s) \<and> set qs \<subseteq> {p}"
  using resolve_promise_resolved_in [of s p v] by (cases "is_pending s p") auto

lemma resolved_in_stable:
  "resolved_in s qs s' \<Longrightarrow> promises s p = Fulfilled v \<Longrightarrow> promises s' p = Fulfilled v"
  by (cases "p \<in> set qs") (auto simp: resolved_in_def is_pending_def)

lemma resolved_in_mono:
  "resolved_in s qs s' \<Longrightarrow> is_pending s' p \<Longrightarrow> promises s' p = promises s p"
  by (cases "p \<in> set qs") (auto simp: resolved_in_def)

lemma resolved_in_mem:
  "resolved_in s qs s' \<Longrightarrow> p \<in> set qs \<longleftrightarrow> is_pending s p \<and> \<not> is_pending s' p"
  by (cases "p \<in> set qs") (auto simp: resolved_in_def is_pending_def)

subsection \<open>Listeners\<close>

lemma remove_first_subset: "set (remove_first P xs) \<subseteq> set xs"
  by (induction xs) auto

lemma remove_first_keeps: "x \<in> set xs \<Longrightarrow> \<not> P x \<Longrightarrow> x \<in> set (remove_first P xs)"
  by (induction xs) auto

lemma removeListener_fields [simp]:
  "promises (removeListener e f s) = promises s"
  "queue (removeListener e f s) = queue s"
  "next_lid (removeListener e f s) = next_lid s"
  "next_pid (removeListener e f s) = next_pid s"
  "all_values (removeListener e f s) = all_values s"
  "all_remaining (removeListener e f s) = all_remaining s"
  "calls (removeListener e f s) = calls s"
  "debug_log (removeListener e f s) = debug_log s"
  "started (removeListener e f s) = started s"
  "translate (removeListener e f s) = translate s"
  "i18n_pending (removeListener e f s) = i18n_pending s"
  "fatal (removeListener e f s) = fatal s"
  by (simp_all add: removeListener_def)

lemma removeListener_subset: "set (listeners (removeListener e f s)) \<subseteq> set (listeners s)"
  using remove_first_subset [of _ "rev (listeners s)"] by (auto simp: removeListener_def)

lemma removeListener_keeps:
  "l \<in> set (listeners s) \<Longrightarrow> Some (callback l) \<noteq> f \<Longrightarrow> l \<in> set (listeners (removeListener e f s))"
  by (auto simp: removeListener_def intro!: remove_first_keeps)

lemma remove_lid_fields [simp]:
  "promises (remove_lid i s) = promises s"
  "queue (remove_lid i s) = queue s"
  "next_lid (remove_lid i s) = next_lid s"
  "next_pid (remove_lid i s) = next_pid s"
  "all_values (remove_lid i s) = all_values s"
  "all_remaining (remove_lid i s) = all_remaining s"
  "calls (remove_lid i s) = calls s"
  "debug_log (remove_lid i s) = debug_log s"
  "started (remove_lid i s) = started s"
  "translate (remove_lid i s) = translate s"
  "i18n_pending (remove_lid i s) = i18n_pending s"
  "fatal (remove_lid i s) = fatal s"
  "set (listeners (remove_lid i s)) = {l \<in> set (listeners s). lid l \<noteq> i}"
  by (simp_all add: remove_lid_def)

lemma fold_removeListener_fields [simp]:
  "promises (fold (\<lambda>e. removeListener e f) es s) = promises s"
  "queue (fold (\<lambda>e. removeListener e f) es s) = queue s"
  "next_lid (fold (\<lambda>e. removeListener e f) es s) = next_lid s"
  "next_pid (fold (\<lambda>e. removeListener e f) es s) = next_pid s"
  "all_values (fold (\<lambda>e. removeListener e f) es s) = all_values s"
  "all_remaining (fold (\<lambda>e. removeListener e f) es s) = all_remaining s"
  "calls (fold (\<lambda>e. removeListener e f) es s) = calls s"
  "debug_log (fold (\<lambda>e. removeListener e f) es s) = debug_log s"
  "started (fold (\<lambda>e. removeListener e f) es s) = started s"
  "translate (fold (\<lambda>e. removeListener e f) es s) = translate s"
  "i18n_pending (fold (\<lambda>e. removeListener e f) es s) = i18n_pending s"
  "fatal (fold (\<lambda>e. removeListener e f) es s) = fatal s"
  by (induction es arbitrary: s; simp)+

lemma fold_removeListener_subset:
  "set (listeners (fold (\<lambda>e. removeListener e f) es s)) \<subseteq> set (listeners s)"
proof (induction es arbitrary: s)
  case Nil
  then show ?case by simp
next
  case (Cons e es)
  have "set (listeners (fold (\<lambda>e. removeListener e f) es (removeListener e f s)))
          \<subseteq> set (listeners (removeListener e f s))" by (rule Cons.IH)
  with removeListener_subset [of e f s] show ?case by auto
qed

lemma fold_removeListener_keeps:
  "l \<in> set (listeners s) \<Longrightarrow> Some (callback l) \<noteq> f \<Longrightarrow>
   l \<in> set (listeners (fold (\<lambda>e. removeListener e f) es s))"
  by (induction es arbitrary: s) (auto intro: removeListener_keeps)

subsection \<open>Calling a function object\<close>

lemma call_ret: "fst (call f args s) = ret f args"
  by (induction f arbitrary: args s) (auto simp: Let_def)

lemma call_calls: "calls (snd (call f args s)) = calls s @ logged f args"
  by (induction f arbitrary: args s) (auto simp: Let_def)

lemma call_started: "started (snd (call f args s)) = (started s \<or> starts f)"
  by (induction f arbitrary: args s) (auto simp: Let_def)

lemma call_fields [simp]:
  "next_lid (snd (call f args s)) = next_lid s"
  "next_pid (snd (call f args s)) = next_pid s"
  "debug_log (snd (call f args s)) = debug_log s"
  "translate (snd (call f args s)) = translate s"
  "i18n_pending (snd (call f args s)) = i18n_pending s"
  "fatal (snd (call f args s)) = fatal s"
  by (induction f arbitrary: args s; simp add: Let_def)+

lemma call_cells:
  "r \<notin> resolves f \<Longrightarrow>
   all_values (snd (call f args s)) r = all_values s r \<and>
   all_remaining (snd (call f args s)) r = all_remaining s r"
  by (induction f arbitrary: args s) (auto simp: Let_def)

lemma call_listeners_subset: "set (listeners (snd (call f args s))) \<subseteq> set (listeners s)"
proof (induction f arbitrary: args s)
  case (OnceAnyCleanup evs rc)
  then show ?case using fold_removeListener_subset by simp
qed (auto simp: Let_def)

lemma call_listeners_keeps:
  "l \<in> set (listeners s) \<Longrightarrow> \<forall>p. callback l = Resolve p \<longrightarrow> p \<notin> unlistens f \<Longrightarrow>
   l \<in> set (listeners (snd (call f args s)))"
proof (induction f arbitrary: args s)
  case (OnceAnyCleanup evs rc)
  show ?case
  proof (cases "evs = []")
    case True
    with OnceAnyCleanup show ?thesis by simp
  next
    case False
    with OnceAnyCleanup have "Some (callback l) \<noteq> map_option Resolve rc"
      by (cases rc) auto
    with OnceAnyCleanup show ?thesis by (simp add: fold_removeListener_keeps)
  qed
qed (auto simp: Let_def)

lemma call_resolved:
  "\<exists>qs. resolved_in s qs (snd (call f args s)) \<and> set qs \<subseteq> resolves f"
proof (induction f arbitrary: args s)
  case Noop
  then show ?case by (auto intro: resolved_in_refl)
next
  case (User n)
  then show ?case by (auto intro!: resolved_in_same)
next
  case (Resolve p)
  then show ?case using resolve_promise_resolved_ex by simp
next
  case (OnceAnyWrapper f)
  then show ?case by simp
next
  case (OnceAnyCleanup evs rc)
  then show ?case by (auto intro!: exI [of _ "[]"] resolved_in_same)
next
  case (AfterWrapper f)
  then show ?case by simp
next
  case (AllElement r i)
  let ?s1 = "s\<lparr>all_values := (all_values s)(r := (all_values s r)[i := arg0 args]),
                 all_remaining := (all_remaining s)(r := all_remaining s r - 1)\<rparr>"
  have c: "resolved_in ?s1 qs s' = resolved_in s qs s'" for qs s'
    by (rule resolved_in_cong_left) simp_all
  show ?case
  proof (cases "all_remaining s r - 1 = 0")
    case True
    then have e: "snd (call (AllElement r i) args s) = resolve_promise r (Arr (all_values ?s1 r)) ?s1"
      by (simp add: Let_def)
    obtain qs where A: "resolved_in ?s1 qs (resolve_promise r (Arr (all_values ?s1 r)) ?s1)"
      and B: "set qs \<subseteq> {r}"
      using resolve_promise_resolved_ex [of ?s1 r] by blast
    from A have "resolved_in s qs (snd (call (AllElement r i) args s))"
      by (simp only: e c)
    with B show ?thesis by auto
  next
    case False
    then have e: "snd (call (AllElement r i) args s) = ?s1"
      by (simp add: Let_def)
    have "resolved_in s [] ?s1" by (rule resolved_in_same) simp_all
    then have "resolved_in s [] (snd (call (AllElement r i) args s))" by (simp only: e)
    then show ?thesis by (intro exI [of _ "[]"]) simp
  qed
next
  case StartThen
  then show ?case by (auto intro!: exI [of _ "[]"] resolved_in_same)
qed

lemma call_same_promise:
  "p \<notin> resolves f \<Longrightarrow> promises (snd (call f args s)) p = promises s p"
  using call_resolved [of s f args] by (auto simp: resolved_in_def)

lemma call_stable:
  "promises s p = Fulfilled v \<Longrightarrow> promises (snd (call f args s)) p = Fulfilled v"
  using call_resolved [of s f args] by (auto dest: resolved_in_stable)

subsection \<open>Running a job\<close>

lemma tick_empty: "queue s = [] \<Longrightarrow> tick s = s"
  by (simp add: tick_def)

lemma tick_cons:
  "queue s = (f, d, v) # js \<Longrightarrow>
   tick s = resolve_promise d (ret f [v]) (snd (call f [v] (s\<lparr>queue := js\<rparr>)))"
  using call_ret [of f "[v]" "s\<lparr>queue := js\<rparr>"]
  by (cases "call f [v] (s\<lparr>queue := js\<rparr>)") (simp add: tick_def run_job_def)

lemma tick_resolved:
  assumes "queue s = (f, d, v) # js"
  shows "\<exists>qs. resolved_in (s\<lparr>queue := js\<rparr>) qs (tick s) \<and> set qs \<subseteq> resolves f \<union> {d}"
proof -
  let ?s0 = "s\<lparr>queue := js\<rparr>"
  let ?s1 = "snd (call f [v] ?s0)"
  obtain qs1 where 1: "resolved_in ?s0 qs1 ?s1" "set qs1 \<subseteq> resolves f"
    using call_resolved by blast
  obtain qs2 where 2: "resolved_in ?s1 qs2 (resolve_promise d (ret f [v]) ?s1)" "set qs2 \<subseteq> {d}"
    using resolve_promise_resolved_ex by blast
  from 1 2 have "resolved_in ?s0 (qs1 @ qs2) (tick s)"
    by (simp add: tick_cons [OF assms] resolved_in_trans)
  moreover from 1 2 have "set (qs1 @ qs2) \<subseteq> resolves f \<union> {d}" by auto
  ultimately show ?thesis by blast
qed


lemma tick_target_value:
  assumes "queue s = (f, d, v) # js" and "d \<notin> resolves f" and "is_pending s d"
  shows "promises (tick s) d = Fulfilled (ret f [v])"
proof -
  have "promises (snd (call f [v] (s\<lparr>queue := js\<rparr>))) d = promises s d"
    using assms(2) by (simp add: call_same_promise)
  with assms(3) have "is_pending (snd (call f [v] (s\<lparr>queue := js\<rparr>))) d"
    by (simp add: is_pending_def)
  then show ?thesis by (simp add: tick_cons [OF assms(1)] resolve_promise_value)
qed

lemma tick_fields:
  assumes "queue s = (f, d, v) # js"
  shows "calls (tick s) = calls s @ logged f [v]"
    and "started (tick s) = (started s \<or> starts f)"
    and "next_pid (tick s) = next_pid s"
    and "next_lid (tick s) = next_lid s"
    and "set (listeners (tick s)) \<subseteq> set (listeners s)"
    and "r \<notin> resolves f \<Longrightarrow> all_values (tick s) r = all_values s r"
    and "r \<notin> resolves f \<Longrightarrow> all_remaining (tick s) r = all_remaining s r"
  using call_listeners_subset [of f "[v]" "s\<lparr>queue := js\<rparr>"]
  by (simp_all add: tick_cons [OF assms] call_calls call_started call_cells)

lemma tick_listeners_keeps:
  assumes "queue s = (f, d, v) # js" and "l \<in> set (listeners s)"
    and "\<forall>p. callback l = Resolve p \<longrightarrow> p \<notin> unlistens f"
  shows "l \<in> set (listeners (tick s))"
  using assms call_listeners_keeps [of l "s\<lparr>queue := js\<rparr>" f "[v]"]
  by (simp add: tick_cons [OF assms(1)])

subsection \<open>Emitting an event\<close>

lemma emit_eq:
  "snd (emit e args s) = fold (fire args) (on_event e s) (s\<lparr>debug_log := debug_log s @ [e]\<rparr>)"
  by (simp add: emit_def on_event_def Let_def)

lemma fire_resolved:
  "\<exists>qs. resolved_in s qs (fire args l s) \<and> set qs \<subseteq> resolves (callback l)"
proof -
  let ?s0 = "if is_once l then remove_lid (lid l) s else s"
  have c: "resolved_in ?s0 qs s' = resolved_in s qs s'" for qs s'
    by (rule resolved_in_cong_left) simp_all
  obtain qs where "resolved_in ?s0 qs (snd (call (callback l) args ?s0))"
    "set qs \<subseteq> resolves (callback l)"
    using call_resolved by blast
  then have "resolved_in s qs (fire args l s)" "set qs \<subseteq> resolves (callback l)"
    unfolding fire_def by (simp_all only: c)
  then show ?thesis by blast
qed

lemma fire_fields:
  "calls (fire args l s) = calls s @ logged (callback l) args"
  "started (fire args l s) = (started s \<or> starts (callback l))"
  "next_pid (fire args l s) = next_pid s"
  "next_lid (fire args l s) = next_lid s"
  "debug_log (fire args l s) = debug_log s"
  "translate (fire args l s) = translate s"
  "i18n_pending (fire args l s) = i18n_pending s"
  "fatal (fire args l s) = fatal s"
  by (simp_all add: fire_def call_calls call_started)


lemma fire_listeners_subset: "set (listeners (fire args l s)) \<subseteq> set (listeners s)"
  using call_listeners_subset [of "callback l" args "if is_once l then remove_lid (lid l) s else s"]
  by (auto simp: fire_def split: if_splits)

lemma fire_listeners_keeps:
  assumes "l' \<in> set (listeners s)" and "is_once l \<longrightarrow> lid l' \<noteq> lid l"
    and "\<forall>p. callback l' = Resolve p \<longrightarrow> p \<notin> unlistens (callback l)"
  shows "l' \<in> set (listeners (fire args l s))"
proof -
  let ?s0 = "if is_once l then remove_lid (lid l) s else s"
  from assms(1,2) have "l' \<in> set (listeners ?s0)" by simp
  from call_listeners_keeps [OF this assms(3)] show ?thesis by (simp add: fire_def)
qed

lemma fire_Resolve:
  "callback l = Resolve p \<Longrightarrow> \<not> is_pending (fire args l s) p"
  by (simp add: fire_def)

lemma fire_Resolve_value:
  "callback l = Resolve p \<Longrightarrow> is_pending s p \<Longrightarrow> promises (fire args l s) p = Fulfilled (arg0 args)"
  by (simp add: fire_def resolve_promise_value is_pending_def)

lemma fire_same_promise:
  "p \<notin> resolves (callback l) \<Longrightarrow> promises (fire args l s) p = promises s p"
  using fire_resolved [of s args l] by (auto simp: resolved_in_def)

lemma fold_fire_resolved:
  "\<exists>qs. resolved_in s qs (fold (fire args) ls s) \<and> set qs \<subseteq> (\<Union>l\<in>set ls. resolves (callback l))"
proof (induction ls arbitrary: s)
  case Nil
  then show ?case by (auto intro: resolved_in_refl)
next
  case (Cons l ls)
  obtain qs1 where 1: "resolved_in s qs1 (fire args l s)" "set qs1 \<subseteq> resolves (callback l)"
    using fire_resolved by blast
  obtain qs2 where 2: "resolved_in (fire args l s) qs2 (fold (fire args) ls (fire args l s))"
    "set qs2 \<subseteq> (\<Union>l\<in>set ls. resolves (callback l))"
    using Cons.IH by blast
  from 1 2 have "resolved_in s (qs1 @ qs2) (fold (fire args) (l # ls) s)"
    by (simp add: resolved_in_trans)
  moreover from 1 2 have "set (qs1 @ qs2) \<subseteq> (\<Union>l\<in>set (l # ls). resolves (callback l))" by auto
  ultimately show ?case by blast
qed

lemma fold_fire_fields:
  "calls (fold (fire args) ls s) = calls s @ concat (map (\<lambda>l. logged (callback l) args) ls)"
  "started (fold (fire args) ls s) = (started s \<or> (\<exists>l\<in>set ls. starts (callback l)))"
  "next_pid (fold (fire args) ls s) = next_pid s"
  "next_lid (fold (fire args) ls s) = next_lid s"
  "debug_log (fold (fire args) ls s) = debug_log s"
  "translate (fold (fire args) ls s) = translate s"
  "i18n_pending (fold (fire args) ls s) = i18n_pending s"
  "fatal (fold (fire args) ls s) = fatal s"
  by (induction ls arbitrary: s; simp add: fire_fields; blast?)+


lemma fold_fire_listeners_subset: "set (listeners (fold (fire args) ls s)) \<subseteq> set (listeners s)"
proof (induction ls arbitrary: s)
  case Nil
  then show ?case by simp
next
  case (Cons l ls)
  have "set (listeners (fold (fire args) ls (fire args l s))) \<subseteq> set (listeners (fire args l s))"
    by (rule Cons.IH)
  with fire_listeners_subset [of args l s] show ?case by auto
qed

lemma fold_fire_listeners_keeps:
  assumes "l' \<in> set (listeners s)"
    and "\<forall>l\<in>set ls. (is_once l \<longrightarrow> lid l' \<noteq> lid l) \<and>
           (\<forall>p. callback l' = Resolve p \<longrightarrow> p \<notin> unlistens (callback l))"
  shows "l' \<in> set (listeners (fold (fire args) ls s))"
  using assms
proof (induction ls arbitrary: s)
  case Nil
  then show ?case by simp
next
  case (Cons l ls)
  from Cons.prems have "l' \<in> set (listeners (fire args l s))"
    by (intro fire_listeners_keeps) auto
  with Cons show ?case by simp
qed

lemma fold_fire_removed:
  "l \<in> set ls \<Longrightarrow> is_once l \<Longrightarrow> \<forall>l'\<in>set (listeners (fold (fire args) ls s)). lid l' \<noteq> lid l"
proof (induction ls arbitrary: s)
  case Nil
  then show ?case by simp
next
  case (Cons a ls)
  show ?case
  proof (cases "l = a")
    case True
    let ?s0 = "remove_lid (lid l) s"
    have "set (listeners (fire args l s)) \<subseteq> set (listeners ?s0)"
      using call_listeners_subset [of "callback l" args ?s0] Cons.prems(2) by (simp add: fire_def)
    moreover have "set (listeners (fold (fire args) ls (fire args l s))) \<subseteq> set (listeners (fire args l s))"
      by (rule fold_fire_listeners_subset)
    ultimately show ?thesis using True by auto
  next
    case False
    with Cons show ?thesis by simp
  qed
qed

lemma fold_fire_stable:
  "promises s p = Fulfilled v \<Longrightarrow> promises (fold (fire args) ls s) p = Fulfilled v"
  using fold_fire_resolved [of s args ls] by (auto dest: resolved_in_stable)

lemma fold_fire_Resolve:
  "l \<in> set ls \<Longrightarrow> callback l = Resolve p \<Longrightarrow> \<not> is_pending (fold (fire args) ls s) p"
proof (induction ls arbitrary: s)
  case Nil
  then show ?case by simp
next
  case (Cons a ls)
  show ?case
  proof (cases "l = a")
    case True
    with Cons.prems have "\<not> is_pending (fire args a s) p" by (simp add: fire_Resolve)
    then obtain v where "promises (fire args a s) p = Fulfilled v"
      by (cases "promises (fire args a s) p") auto
    then have "promises (fold (fire args) ls (fire args a s)) p = Fulfilled v"
      by (rule fold_fire_stable)
    then show ?thesis by simp
  next
    case False
    with Cons show ?thesis by simp
  qed
qed

lemma fold_fire_same_promise:
  "\<forall>l\<in>set ls. p \<notin> resolves (callback l) \<Longrightarrow> promises (fold (fire args) ls s) p = promises s p"
  by (induction ls arbitrary: s) (auto simp: fire_same_promise)

lemma fold_fire_value:
  assumes "is_pending s p" and "\<not> is_pending (fold (fire args) ls s) p"
    and "\<forall>l\<in>set ls. p \<in> resolves (callback l) \<longrightarrow> callback l = Resolve p"
  shows "promises (fold (fire args) ls s) p = Fulfilled (arg0 args)"
  using assms
proof (induction ls arbitrary: s)
  case Nil
  then show ?case by simp
next
  case (Cons a ls)
  have rest: "\<forall>l\<in>set ls. p \<in> resolves (callback l) \<longrightarrow> callback l = Resolve p"
    using Cons.prems(3) by simp
  show ?case
  proof (cases "p \<in> resolves (callback a)")
    case True
    then have "callback a = Resolve p" using Cons.prems(3) by simp
    then have "promises (fire args a s) p = Fulfilled (arg0 args)"
      using Cons.prems(1) by (rule fire_Resolve_value)
    then have "promises (fold (fire args) ls (fire args a s)) p = Fulfilled (arg0 args)"
      by (rule fold_fire_stable)
    then show ?thesis by simp
  next
    case False
    then have "promises (fire args a s) p = promises s p" by (rule fire_same_promise)
    then have 1: "is_pending (fire args a s) p" using Cons.prems(1) by (simp add: is_pending_def)
    have 2: "\<not> is_pending (fold (fire args) ls (fire args a s)) p"
      using Cons.prems(2) by simp
    from Cons.IH [OF 1 2 rest] show ?thesis by simp
  qed
qed

subsection \<open>One step of a run\<close>

lemma same_core_refl [simp]: "same_core s s"
  by (simp add: same_core_def)

lemma same_core_simps:
  assumes "same_core s s1"
  shows "on_event e s1 = on_event e s" and "is_pending s1 = is_pending s"
    and "reactions s1 = reactions s" and "value_of s1 = value_of s"
    and "resolved_in s1 qs s' = resolved_in s qs s'"
    and "listeners s1 = listeners s" and "promises s1 = promises s" and "queue s1 = queue s"
    and "calls s1 = calls s" and "started s1 = started s" and "all_values s1 = all_values s"
    and "all_remaining s1 = all_remaining s" and "next_pid s1 = next_pid s"
    and "next_lid s1 = next_lid s" and "jobs_for d s1 = jobs_for d s"
  using assms
  by (auto simp: same_core_def on_event_def is_pending_def reactions_def value_of_def fun_eq_iff
        jobs_for_def intro!: resolved_in_cong_left)

lemma step_emission:
  assumes "emission_of a s = Some (e, args)"
  shows "\<exists>s1. same_core s s1 \<and> step a s = fold (fire args) (on_event e s) s1"
proof (cases a)
  case (Emit e' args')
  with assms have "e' = e" "args' = args" by (simp_all add: emission_of_def)
  with Emit have "step a s = fold (fire args) (on_event e s) (s\<lparr>debug_log := debug_log s @ [e]\<rparr>)"
    by (simp add: emit_eq)
  moreover have "same_core s (s\<lparr>debug_log := debug_log s @ [e]\<rparr>)" by (simp add: same_core_def)
  ultimately show ?thesis by blast
next
  case Tick
  with assms show ?thesis by (simp add: emission_of_def)
next
  case I18nDone
  with assms obtain t where p: "i18n_pending s = Some (InitOk t)" and e: "e = ''trails:start''" "args = []"
    by (auto simp: emission_of_def split: option.splits i18n_result.splits)
  let ?s0 = "s\<lparr>i18n_pending := None, translate := t\<rparr>"
  let ?s1 = "?s0\<lparr>debug_log := debug_log ?s0 @ [e]\<rparr>"
  have "step a s = fold (fire args) (on_event e ?s0) ?s1"
    using I18nDone p e by (simp add: i18n_callback_def emit_eq)
  moreover have "on_event e ?s0 = on_event e s" by (simp add: on_event_def)
  moreover have "same_core s ?s1" by (simp add: same_core_def)
  ultimately show ?thesis by metis
qed

lemma step_idle:
  assumes "emission_of a s = None" and "a \<noteq> Tick"
  shows "same_core s (step a s)"
proof (cases a)
  case (Emit e args)
  with assms show ?thesis by (simp add: emission_of_def)
next
  case Tick
  with assms show ?thesis by simp
next
  case I18nDone
  with assms show ?thesis
    by (auto simp: emission_of_def same_core_def i18n_callback_def
        split: option.splits i18n_result.splits)
qed

lemma emission_not_Tick: "emission_of a s = Some x \<Longrightarrow> a \<noteq> Tick"
  by (auto simp: emission_of_def)

lemma emission_resolved:
  assumes "emission_of a s = Some (e, args)"
  shows "\<exists>qs. resolved_in s qs (step a s) \<and> set qs \<subseteq> (\<Union>l\<in>set (on_event e s). resolves (callback l))"
proof -
  obtain s1 where 1: "same_core s s1" "step a s = fold (fire args) (on_event e s) s1"
    using step_emission [OF assms] by blast
  obtain qs where "resolved_in s1 qs (fold (fire args) (on_event e s) s1)"
    "set qs \<subseteq> (\<Union>l\<in>set (on_event e s). resolves (callback l))"
    using fold_fire_resolved by blast
  with 1 show ?thesis by (auto simp: same_core_simps)
qed

lemma emission_fields:
  assumes "emission_of a s = Some (e, args)"
  shows "calls (step a s) = calls s @ concat (map (\<lambda>l. logged (callback l) args) (on_event e s))"
    and "started (step a s) = (started s \<or> (\<exists>l\<in>set (on_event e s). starts (callback l)))"
    and "next_pid (step a s) = next_pid s"
    and "next_lid (step a s) = next_lid s"
    and "set (listeners (step a s)) \<subseteq> set (listeners s)"
proof -
  obtain s1 where 1: "same_core s s1" "step a s = fold (fire args) (on_event e s) s1"
    using step_emission [OF assms] by blast
  show "calls (step a s) = calls s @ concat (map (\<lambda>l. logged (callback l) args) (on_event e s))"
    and "started (step a s) = (started s \<or> (\<exists>l\<in>set (on_event e s). starts (callback l)))"
    and "next_pid (step a s) = next_pid s"
    and "next_lid (step a s) = next_lid s"
    and "set (listeners (step a s)) \<subseteq> set (listeners s)"
    using 1 fold_fire_listeners_subset [of args "on_event e s" s1]
    by (simp_all add: fold_fire_fields same_core_simps)
qed


lemma emission_listeners_keeps:
  assumes "emission_of a s = Some (e, args)" and "l' \<in> set (listeners s)"
    and "\<forall>l\<in>set (on_event e s). (is_once l \<longrightarrow> lid l' \<noteq> lid l) \<and>
           (\<forall>p. callback l' = Resolve p \<longrightarrow> p \<notin> unlistens (callback l))"
  shows "l' \<in> set (listeners (step a s))"
proof -
  obtain s1 where 1: "same_core s s1" "step a s = fold (fire args) (on_event e s) s1"
    using step_emission [OF assms(1)] by blast
  from 1 assms(2) have "l' \<in> set (listeners s1)" by (simp add: same_core_simps)
  from fold_fire_listeners_keeps [OF this assms(3)] 1 show ?thesis by simp
qed

lemma emission_removed:
  assumes "emission_of a s = Some (e, args)" and "l \<in> set (listeners s)" and "ev_name l = e"
    and "is_once l"
  shows "\<forall>l'\<in>set (listeners (step a s)). lid l' \<noteq> lid l"
proof -
  obtain s1 where 1: "same_core s s1" "step a s = fold (fire args) (on_event e s) s1"
    using step_emission [OF assms(1)] by blast
  from assms have "l \<in> set (on_event e s)" by (simp add: on_event_def)
  from fold_fire_removed [OF this assms(4)] 1 show ?thesis by simp
qed

lemma emission_Resolve:
  assumes "emission_of a s = Some (e, args)" and "l \<in> set (listeners s)" and "ev_name l = e"
    and "callback l = Resolve p"
  shows "\<not> is_pending (step a s) p"
proof -
  obtain s1 where 1: "same_core s s1" "step a s = fold (fire args) (on_event e s) s1"
    using step_emission [OF assms(1)] by blast
  from assms have "l \<in> set (on_event e s)" by (simp add: on_event_def)
  from fold_fire_Resolve [OF this assms(4)] 1 show ?thesis by simp
qed

lemma emission_same_promise:
  assumes "emission_of a s = Some (e, args)" and "\<forall>l\<in>set (on_event e s). p \<notin> resolves (callback l)"
  shows "promises (step a s) p = promises s p"
proof -
  obtain s1 where 1: "same_core s s1" "step a s = fold (fire args) (on_event e s) s1"
    using step_emission [OF assms(1)] by blast
  from fold_fire_same_promise [OF assms(2), of args s1] 1 show ?thesis
    by (simp add: same_core_simps)
qed

lemma emission_value:
  assumes "emission_of a s = Some (e, args)" and "is_pending s p" and "\<not> is_pending (step a s) p"
    and "\<forall>l\<in>set (on_event e s). p \<in> resolves (callback l) \<longrightarrow> callback l = Resolve p"
  shows "promises (step a s) p = Fulfilled (arg0 args)"
proof -
  obtain s1 where 1: "same_core s s1" "step a s = fold (fire args) (on_event e s) s1"
    using step_emission [OF assms(1)] by blast
  have "is_pending s1 p" using 1 assms(2) by (simp add: same_core_simps)
  moreover have "\<not> is_pending (fold (fire args) (on_event e s) s1) p" using 1 assms(3) by simp
  ultimately have "promises (fold (fire args) (on_event e s) s1) p = Fulfilled (arg0 args)"
    using assms(4) by (rule fold_fire_value)
  with 1 show ?thesis by simp
qed

text \<open>What every step has in common.\<close>

lemma step_cases [case_names idle job emission]:
  obtains "same_core s (step a s)"
  | f d v js where "a = Tick" "queue s = (f, d, v) # js"
  | e args where "emission_of a s = Some (e, args)"
proof (cases "emission_of a s")
  case None
  show ?thesis
  proof (cases "a = Tick")
    case True
    show ?thesis
    proof (cases "queue s")
      case Nil
      with True have "step a s = s" by (simp add: tick_empty)
      then show ?thesis using that(1) by simp
    next
      case (Cons j js)
      then show ?thesis using that(2) True by (cases j) auto
    qed
  next
    case False
    with None show ?thesis using that(1) step_idle by blast
  qed
next
  case (Some x)
  then show ?thesis using that(3) by (cases x) auto
qed

lemma step_summary:
  "\<exists>s0 qs. promises s0 = promises s \<and> set (queue s0) \<subseteq> set (queue s) \<and> resolved_in s0 qs (step a s)"
proof (cases rule: step_cases [of s a])
  case idle
  then have "resolved_in s [] (step a s)"
    by (intro resolved_in_same) (simp_all add: same_core_def)
  then show ?thesis by blast
next
  case (job f d v js)
  obtain qs where "resolved_in (s\<lparr>queue := js\<rparr>) qs (tick s)"
    using tick_resolved [OF job(2)] by blast
  with job show ?thesis
    by (intro exI [of _ "s\<lparr>queue := js\<rparr>"] exI [of _ qs]) auto
next
  case (emission e args)
  then show ?thesis using emission_resolved by blast
qed

lemma step_stable:
  "promises s p = Fulfilled v \<Longrightarrow> promises (step a s) p = Fulfilled v"
proof -
  assume a: "promises s p = Fulfilled v"
  obtain s0 qs where "promises s0 = promises s" "resolved_in s0 qs (step a s)"
    using step_summary by blast
  with a show ?thesis by (auto dest: resolved_in_stable)
qed

lemma step_pending:
  "is_pending (step a s) p \<Longrightarrow> promises (step a s) p = promises s p"
proof -
  assume a: "is_pending (step a s) p"
  obtain s0 qs where "promises s0 = promises s" "resolved_in s0 qs (step a s)"
    using step_summary by blast
  with a show ?thesis by (auto dest: resolved_in_mono)
qed

lemma step_reactions:
  "x \<in> set (reactions (step a s) q) \<Longrightarrow> x \<in> set (reactions s q)"
proof (cases "is_pending (step a s) q")
  case True
  assume "x \<in> set (reactions (step a s) q)"
  with step_pending [OF True] show ?thesis by (simp add: reactions_def)
next
  case False
  assume "x \<in> set (reactions (step a s) q)"
  with False show ?thesis by simp
qed

lemma step_queue:
  assumes "(f, d, v) \<in> set (queue (step a s))"
  shows "(f, d, v) \<in> set (queue s) \<or>
         (\<exists>q. (f, d) \<in> set (reactions s q) \<and> is_pending s q \<and> promises (step a s) q = Fulfilled v)"
proof -
  obtain s0 qs where s0: "promises s0 = promises s" "set (queue s0) \<subseteq> set (queue s)"
    and r: "resolved_in s0 qs (step a s)"
    using step_summary by blast
  have q: "queue (step a s) = queue s0 @ concat (map (\<lambda>q. jobs_of (reactions s0 q) (value_of (step a s) q)) qs)"
    using r unfolding resolved_in_def by blast
  have pend: "\<forall>q\<in>set qs. is_pending s0 q \<and> \<not> is_pending (step a s) q"
    using r unfolding resolved_in_def by blast
  from assms q have "(f, d, v) \<in> set (queue s0) \<or>
     (\<exists>q\<in>set qs. (f, d, v) \<in> set (jobs_of (reactions s0 q) (value_of (step a s) q)))"
    by auto
  then show ?thesis
  proof
    assume "(f, d, v) \<in> set (queue s0)"
    with s0(2) show ?thesis by blast
  next
    assume "\<exists>q\<in>set qs. (f, d, v) \<in> set (jobs_of (reactions s0 q) (value_of (step a s) q))"
    then obtain q where 2: "q \<in> set qs"
      "(f, d, v) \<in> set (jobs_of (reactions s0 q) (value_of (step a s) q))" by blast
    from 2(1) pend have p: "is_pending s0 q" "\<not> is_pending (step a s) q" by auto
    from 2(2) have m: "(f, d) \<in> set (reactions s0 q)" and v: "v = value_of (step a s) q"
      by (auto simp: jobs_of_def)
    have e: "reactions s0 q = reactions s q" "is_pending s0 q = is_pending s q"
      using s0(1) by (simp_all add: reactions_def is_pending_def)
    from p(2) have "promises (step a s) q = Fulfilled (value_of (step a s) q)"
      by (rule not_pending_eq)
    with m v p(1) e show ?thesis by metis
  qed
qed

lemma step_listeners_subset: "set (listeners (step a s)) \<subseteq> set (listeners s)"
proof (cases rule: step_cases [of s a])
  case idle
  then show ?thesis by (simp add: same_core_def)
next
  case (job f d v js)
  then show ?thesis using tick_fields(5) [OF job(2)] by simp
next
  case (emission e args)
  then show ?thesis by (rule emission_fields)
qed

lemma step_next [simp]: "next_pid (step a s) = next_pid s" "next_lid (step a s) = next_lid s"
proof -
  show "next_pid (step a s) = next_pid s"
  proof (cases rule: step_cases [of s a])
    case idle
    then show ?thesis by (simp add: same_core_def)
  next
    case (job f d v js)
    then show ?thesis using tick_fields(3) [OF job(2)] by simp
  next
    case (emission e args)
    then show ?thesis by (rule emission_fields)
  qed
  show "next_lid (step a s) = next_lid s"
  proof (cases rule: step_cases [of s a])
    case idle
    then show ?thesis by (simp add: same_core_def)
  next
    case (job f d v js)
    then show ?thesis using tick_fields(4) [OF job(2)] by simp
  next
    case (emission e args)
    then show ?thesis by (rule emission_fields)
  qed
qed

lemma exec_append: "exec (as @ bs) s = exec bs (exec as s)"
  by (simp add: exec_def)

lemma exec_snoc: "exec (as @ [a]) s = step a (exec as s)"
  by (simp add: exec_def)

lemma exec_Nil [simp]: "exec [] s = s"
  by (simp add: exec_def)

lemma history_append: "history (as @ bs) s = history as s @ history bs (exec as s)"
  by (induction as arbitrary: s) (simp_all add: exec_def)

lemma history_snoc:
  "history (as @ [a]) s =
   history as s @ (case emission_of a (exec as s) of None \<Rightarrow> [] | Some x \<Rightarrow> [x])"
  by (simp add: history_append)

lemma exec_stable:
  "promises s p = Fulfilled v \<Longrightarrow> promises (exec as s) p = Fulfilled v"
  by (induction as arbitrary: s) (simp_all add: exec_def step_stable)

lemma exec_next [simp]: "next_pid (exec as s) = next_pid s" "next_lid (exec as s) = next_lid s"
  by (induction as arbitrary: s; simp add: exec_def)+

lemma step_promise_cases:
  "promises (step a s) p = promises s p \<or>
   (\<exists>f d v js. a = Tick \<and> queue s = (f, d, v) # js \<and> (d = p \<or> p \<in> resolves f)) \<or>
   (\<exists>e args l. emission_of a s = Some (e, args) \<and> l \<in> set (on_event e s) \<and>
      p \<in> resolves (callback l))"
proof (cases rule: step_cases [of s a])
  case idle
  then show ?thesis by (simp add: same_core_def)
next
  case (job f d v js)
  obtain qs where r: "resolved_in (s\<lparr>queue := js\<rparr>) qs (tick s)" "set qs \<subseteq> resolves f \<union> {d}"
    using tick_resolved [OF job(2)] by blast
  show ?thesis
  proof (cases "p \<in> set qs")
    case True
    with r(2) job show ?thesis by auto
  next
    case False
    with r(1) have "promises (tick s) p = promises s p" unfolding resolved_in_def by simp
    with job show ?thesis by simp
  qed
next
  case (emission e args)
  show ?thesis
  proof (cases "\<forall>l\<in>set (on_event e s). p \<notin> resolves (callback l)")
    case True
    from emission_same_promise [OF emission True] show ?thesis by simp
  next
    case False
    with emission show ?thesis by blast
  qed
qed

lemma step_listener_cases:
  assumes "l \<in> set (listeners s)"
  shows "l \<in> set (listeners (step a s)) \<or>
    (\<exists>f d v js p. a = Tick \<and> queue s = (f, d, v) # js \<and> callback l = Resolve p \<and> p \<in> unlistens f) \<or>
    (\<exists>e args l'. emission_of a s = Some (e, args) \<and> l' \<in> set (on_event e s) \<and>
       ((is_once l' \<and> lid l' = lid l) \<or> (\<exists>p. callback l = Resolve p \<and> p \<in> unlistens (callback l'))))"
proof (cases rule: step_cases [of s a])
  case idle
  with assms show ?thesis by (simp add: same_core_def)
next
  case (job f d v js)
  show ?thesis
  proof (cases "\<forall>p. callback l = Resolve p \<longrightarrow> p \<notin> unlistens f")
    case True
    from tick_listeners_keeps [OF job(2) assms True] job show ?thesis by simp
  next
    case False
    with job show ?thesis by blast
  qed
next
  case (emission e args)
  show ?thesis
  proof (cases "\<forall>l'\<in>set (on_event e s). (is_once l' \<longrightarrow> lid l \<noteq> lid l') \<and>
           (\<forall>p. callback l = Resolve p \<longrightarrow> p \<notin> unlistens (callback l'))")
    case True
    from emission_listeners_keeps [OF emission assms True] show ?thesis by simp
  next
    case False
    with emission show ?thesis by (metis (no_types, lifting))
  qed
qed

lemma step_queue_append:
  "\<exists>new. queue (step a s) = (if a = Tick then tl (queue s) else queue s) @ new"
proof (cases rule: step_cases [of s a])
  case idle
  show ?thesis
  proof (cases "a = Tick")
    case True
    show ?thesis
    proof (cases "queue s")
      case Nil
      with True show ?thesis by (simp add: tick_empty)
    next
      case (Cons j js)
      obtain f d v where "j = (f, d, v)" by (cases j) auto
      with Cons obtain qs where "resolved_in (s\<lparr>queue := js\<rparr>) qs (tick s)"
        using tick_resolved by blast
      with True Cons show ?thesis unfolding resolved_in_def by auto
    qed
  next
    case False
    with idle show ?thesis by (simp add: same_core_def)
  qed
next
  case (job f d v js)
  obtain qs where "resolved_in (s\<lparr>queue := js\<rparr>) qs (tick s)"
    using tick_resolved [OF job(2)] by blast
  with job show ?thesis unfolding resolved_in_def by auto
next
  case (emission e args)
  obtain qs where "resolved_in s qs (step a s)" using emission_resolved [OF emission] by blast
  moreover have "a \<noteq> Tick" using emission by (rule emission_not_Tick)
  ultimately show ?thesis unfolding resolved_in_def by auto
qed

lemma tick_Resolve:
  assumes "queue s = (Resolve p, d, v) # js" and "is_pending s p"
  shows "promises (tick s) p = Fulfilled v"
proof -
  let ?s1 = "resolve_promise p v (s\<lparr>queue := js\<rparr>)"
  have "is_pending (s\<lparr>queue := js\<rparr>) p" using assms(2) by (simp add: is_pending_def)
  then have 1: "promises ?s1 p = Fulfilled v" by (rule resolve_promise_value)
  have "tick s = resolve_promise d Undefined ?s1"
    using tick_cons [OF assms(1)] by (simp add: arg0_def)
  moreover have "promises (resolve_promise d Undefined ?s1) p = Fulfilled v"
  proof (cases "d = p")
    case True
    have "\<not> is_pending ?s1 p" using 1 by simp
    then have "resolve_promise p Undefined ?s1 = ?s1" by (rule resolve_promise_settled)
    with True 1 show ?thesis by simp
  next
    case False
    then show ?thesis using 1 by (simp add: resolve_promise_other)
  qed
  ultimately show ?thesis by simp
qed

text \<open>The jobs a step appends are the reactions of the promises it fulfils.\<close>

lemma step_queue_new:
  "\<exists>new. queue (step a s) = (if a = Tick then tl (queue s) else queue s) @ new \<and>
     (\<forall>f d v. (f, d, v) \<in> set new \<longrightarrow>
        (\<exists>q. (f, d) \<in> set (reactions s q) \<and> is_pending s q \<and> promises (step a s) q = Fulfilled v)) \<and>
     (\<forall>q. is_pending s q \<and> \<not> is_pending (step a s) q \<longrightarrow>
        set (jobs_of (reactions s q) (value_of (step a s) q)) \<subseteq> set new)"
proof -
  let ?base = "if a = Tick then tl (queue s) else queue s"
  have "\<exists>s0 qs. promises s0 = promises s \<and> queue s0 = ?base \<and> resolved_in s0 qs (step a s)"
  proof (cases rule: step_cases [of s a])
    case idle
    show ?thesis
    proof (cases "a = Tick \<and> queue s \<noteq> []")
      case True
      then obtain f d v js where q: "queue s = (f, d, v) # js" by (cases "queue s") auto
      obtain qs where "resolved_in (s\<lparr>queue := js\<rparr>) qs (tick s)"
        using tick_resolved [OF q] by blast
      with True q show ?thesis
        by (intro exI [of _ "s\<lparr>queue := js\<rparr>"] exI [of _ qs]) simp
    next
      case False
      have "resolved_in s [] (step a s)"
        using idle by (intro resolved_in_same) (simp_all add: same_core_def)
      moreover have "queue s = ?base" using False by auto
      ultimately show ?thesis by (intro exI [of _ s] exI [of _ "[]"]) simp
    qed
  next
    case (job f d v js)
    obtain qs where "resolved_in (s\<lparr>queue := js\<rparr>) qs (tick s)"
      using tick_resolved [OF job(2)] by blast
    with job show ?thesis
      by (intro exI [of _ "s\<lparr>queue := js\<rparr>"] exI [of _ qs]) simp
  next
    case (emission e args)
    obtain qs where "resolved_in s qs (step a s)" using emission_resolved [OF emission] by blast
    moreover have "a \<noteq> Tick" using emission by (rule emission_not_Tick)
    ultimately show ?thesis by (intro exI [of _ s] exI [of _ qs]) simp
  qed
  then obtain s0 qs where p0: "promises s0 = promises s" and q0: "queue s0 = ?base"
    and r: "resolved_in s0 qs (step a s)" by blast
  let ?new = "concat (map (\<lambda>q. jobs_of (reactions s0 q) (value_of (step a s) q)) qs)"
  have e: "reactions s0 = reactions s" "is_pending s0 = is_pending s"
    using p0 by (simp_all add: reactions_def is_pending_def fun_eq_iff)
  have 1: "queue (step a s) = ?base @ ?new" using r q0 unfolding resolved_in_def by simp
  have 2: "\<forall>f d v. (f, d, v) \<in> set ?new \<longrightarrow>
        (\<exists>q. (f, d) \<in> set (reactions s q) \<and> is_pending s q \<and> promises (step a s) q = Fulfilled v)"
  proof (intro allI impI)
    fix f d v assume "(f, d, v) \<in> set ?new"
    then obtain q where q: "q \<in> set qs" "(f, d, v) \<in> set (jobs_of (reactions s0 q) (value_of (step a s) q))"
      by auto
    from q(1) r have p: "is_pending s0 q" "\<not> is_pending (step a s) q"
      unfolding resolved_in_def by auto
    from q(2) have m: "(f, d) \<in> set (reactions s0 q)" and v: "v = value_of (step a s) q"
      by (auto simp: jobs_of_def)
    from p(2) have "promises (step a s) q = Fulfilled (value_of (step a s) q)"
      by (rule not_pending_eq)
    with m v p(1) e show "\<exists>q. (f, d) \<in> set (reactions s q) \<and> is_pending s q \<and>
        promises (step a s) q = Fulfilled v" by metis
  qed
  have 3: "\<forall>q. is_pending s q \<and> \<not> is_pending (step a s) q \<longrightarrow>
        set (jobs_of (reactions s q) (value_of (step a s) q)) \<subseteq> set ?new"
  proof (intro allI impI)
    fix q assume "is_pending s q \<and> \<not> is_pending (step a s) q"
    then have "q \<in> set qs" using resolved_in_mem [OF r, of q] e by simp
    then show "set (jobs_of (reactions s q) (value_of (step a s) q)) \<subseteq> set ?new"
      using e by auto
  qed
  from 1 2 3 show ?thesis by blast
qed

section \<open>Ownership and links are kept by every step\<close>

lemma owns_step:
  assumes "owns T TL spec ours s"
  shows "owns T TL spec ours (step a s)"
  unfolding owns_def
proof (intro conjI allI impI ballI)
  fix q f d
  assume "(f, d) \<in> set (reactions (step a s) q)" and "T f d"
  then show "spec q = Some (f, d)"
    using assms step_reactions unfolding owns_def by blast
next
  fix f d v
  assume j: "(f, d, v) \<in> set (queue (step a s))" and t: "T f d"
  from step_queue [OF j] show "\<exists>q. spec q = Some (f, d) \<and> promises (step a s) q = Fulfilled v"
  proof
    assume "(f, d, v) \<in> set (queue s)"
    with assms t obtain q where "spec q = Some (f, d)" "promises s q = Fulfilled v"
      unfolding owns_def by blast
    then show ?thesis using step_stable by blast
  next
    assume "\<exists>q. (f, d) \<in> set (reactions s q) \<and> is_pending s q \<and> promises (step a s) q = Fulfilled v"
    then obtain q where "(f, d) \<in> set (reactions s q)" "promises (step a s) q = Fulfilled v"
      by blast
    with assms t show ?thesis unfolding owns_def by blast
  qed
next
  fix l
  assume "l \<in> set (listeners (step a s))" and "TL l"
  then show "ours l"
    using assms step_listeners_subset [of a s] unfolding owns_def by blast
qed

lemma owns_exec: "owns T TL spec ours s \<Longrightarrow> owns T TL spec ours (exec as s)"
  by (induction as arbitrary: s) (simp_all add: exec_def owns_step)


lemma owns_reaction:
  "owns T TL spec ours s \<Longrightarrow> (f, d) \<in> set (reactions s q) \<Longrightarrow> T f d \<Longrightarrow> spec q = Some (f, d)"
  unfolding owns_def by blast

lemma owns_job:
  "owns T TL spec ours s \<Longrightarrow> (f, d, v) \<in> set (queue s) \<Longrightarrow> T f d \<Longrightarrow>
   \<exists>q. spec q = Some (f, d) \<and> promises s q = Fulfilled v"
  unfolding owns_def by blast

lemma owns_listener:
  "owns T TL spec ours s \<Longrightarrow> l \<in> set (listeners s) \<Longrightarrow> TL l \<Longrightarrow> ours l"
  unfolding owns_def by blast

lemma filter_jobs_of:
  "filter (\<lambda>j. fst (snd j) = d) (jobs_of rs v) = jobs_of (filter (\<lambda>r. snd r = d) rs) v"
  by (induction rs) (auto simp: jobs_of_def)

lemma filter_concat_one:
  assumes "distinct qs" and "\<forall>q'\<in>set qs. q' \<noteq> q \<longrightarrow> filter P (g q') = []"
  shows "filter P (concat (map g qs)) = (if q \<in> set qs then filter P (g q) else [])"
  using assms by (induction qs) auto

lemma jobs_for_resolved:
  assumes r: "resolved_in s0 qs s'"
    and o: "\<forall>q'\<in>set qs. q' \<noteq> q \<longrightarrow> (\<forall>x\<in>set (reactions s0 q'). snd x \<noteq> d)"
  shows "jobs_for d s' = jobs_for d s0 @
           (if q \<in> set qs then jobs_of (filter (\<lambda>x. snd x = d) (reactions s0 q)) (value_of s' q) else [])"
proof -
  let ?g = "\<lambda>q. jobs_of (reactions s0 q) (value_of s' q)"
  have d: "distinct qs" using r unfolding resolved_in_def by blast
  have e: "\<forall>q'\<in>set qs. q' \<noteq> q \<longrightarrow> filter (\<lambda>j. fst (snd j) = d) (?g q') = []"
  proof (intro ballI impI)
    fix q' assume "q' \<in> set qs" "q' \<noteq> q"
    with o have "filter (\<lambda>x. snd x = d) (reactions s0 q') = []"
      by (auto simp: filter_empty_conv)
    then have "jobs_of (filter (\<lambda>x. snd x = d) (reactions s0 q')) (value_of s' q') = []"
      by (simp add: jobs_of_def)
    then show "filter (\<lambda>j. fst (snd j) = d) (?g q') = []"
      by (simp only: filter_jobs_of)
  qed
  have "queue s' = queue s0 @ concat (map ?g qs)" using r unfolding resolved_in_def by blast
  then have "jobs_for d s' = jobs_for d s0 @ filter (\<lambda>j. fst (snd j) = d) (concat (map ?g qs))"
    by (simp add: jobs_for_def)
  also have "filter (\<lambda>j. fst (snd j) = d) (concat (map ?g qs)) =
      (if q \<in> set qs then filter (\<lambda>j. fst (snd j) = d) (?g q) else [])"
    using d e by (rule filter_concat_one)
  finally show ?thesis by (simp add: filter_jobs_of)
qed

lemma link_same_core: "same_core s s1 \<Longrightarrow> link q f d s1 = link q f d s"
  by (simp add: link_def same_core_simps split: pstate.splits)

lemma link_pendingD:
  "link q f d s \<Longrightarrow> is_pending s q \<Longrightarrow>
   filter (\<lambda>r. snd r = d) (reactions s q) = [(f, d)] \<and> jobs_for d s = [] \<and> is_pending s d"
  by (cases "promises s q") (auto simp: link_def)

lemma link_fulfilledD:
  "link q f d s \<Longrightarrow> promises s q = Fulfilled v \<Longrightarrow>
   (jobs_for d s = [(f, d, v)] \<and> is_pending s d) \<or>
   (jobs_for d s = [] \<and> promises s d = Fulfilled (ret f [v]))"
  by (auto simp: link_def)

lemma link_target_pending: "link q f d s \<Longrightarrow> is_pending s q \<Longrightarrow> is_pending s d"
  by (auto dest: link_pendingD)

lemma link_target_value:
  "link q f d s \<Longrightarrow> promises s d = Fulfilled u \<Longrightarrow> \<exists>v. promises s q = Fulfilled v \<and> u = ret f [v]"
  by (cases "promises s q") (auto simp: link_def is_pending_def)


text \<open>
  A link is kept by every step, provided the state owns \<open>d\<close>: whatever targets or resolves
  \<open>d\<close> is tracked, no tracked function object resolves \<open>d\<close>, and the only tracked reaction
  that targets \<open>d\<close> is \<open>(f, d)\<close> on \<open>q\<close>.
\<close>

lemma link_step:
  assumes own: "owns T TL spec ours s" and lk: "link q f d s"
    and T1: "\<And>f'. T f' d"
    and T2: "\<And>f' d'. d \<in> resolves f' \<Longrightarrow> T f' d'"
    and T3: "\<And>l. d \<in> resolves (callback l) \<Longrightarrow> TL l"
    and S1: "\<And>q' f' d'. spec q' = Some (f', d') \<Longrightarrow> d \<notin> resolves f' \<and> (d' = d \<longrightarrow> q' = q \<and> f' = f)"
    and S2: "\<And>l. ours l \<Longrightarrow> d \<notin> resolves (callback l)"
  shows "link q f d (step a s)"
proof -
  have react: "\<And>q' x. x \<in> set (reactions s q') \<Longrightarrow> snd x = d \<Longrightarrow> q' = q"
  proof -
    fix q' x assume "x \<in> set (reactions s q')" "snd x = d"
    then have "(fst x, d) \<in> set (reactions s q')" by (cases x) auto
    from owns_reaction [OF own this T1] have "spec q' = Some (fst x, d)" .
    with S1 show "q' = q" by blast
  qed
  have noresolve_job: "\<And>f' d' v'. (f', d', v') \<in> set (queue s) \<Longrightarrow> d \<notin> resolves f'"
  proof -
    fix f' d' v' assume j: "(f', d', v') \<in> set (queue s)"
    show "d \<notin> resolves f'"
    proof
      assume r: "d \<in> resolves f'"
      from owns_job [OF own j T2 [OF r]] obtain q' where "spec q' = Some (f', d')" by blast
      with S1 r show False by blast
    qed
  qed
  have noresolve_listener: "\<And>l. l \<in> set (listeners s) \<Longrightarrow> d \<notin> resolves (callback l)"
  proof -
    fix l assume l: "l \<in> set (listeners s)"
    show "d \<notin> resolves (callback l)"
    proof
      assume r: "d \<in> resolves (callback l)"
      from owns_listener [OF own l T3 [OF r]] have "ours l" .
      with S2 r show False by blast
    qed
  qed
  text \<open>The effect of resolutions that do not include \<open>d\<close>, on a state with the jobs for \<open>d\<close> as in \<open>s\<close>.\<close>
  have core: "link q f d s'"
    if r: "resolved_in s0 qs s'" and p0: "promises s0 = promises s"
      and j0: "jobs_for d s0 = jobs_for d s" and dq: "d \<notin> set qs" for s0 qs s'
  proof -
    have rs0: "reactions s0 = reactions s" "is_pending s0 = is_pending s"
      using p0 by (simp_all add: reactions_def is_pending_def fun_eq_iff)
    have o: "\<forall>q'\<in>set qs. q' \<noteq> q \<longrightarrow> (\<forall>x\<in>set (reactions s0 q'). snd x \<noteq> d)"
      using react rs0 by auto
    note J = jobs_for_resolved [OF r o]
    have dsame: "promises s' d = promises s d"
      using r dq p0 unfolding resolved_in_def by auto
    show ?thesis
    proof (cases "q \<in> set qs")
      case True
      then have pq: "is_pending s q" "\<not> is_pending s' q"
        using r rs0 unfolding resolved_in_def by auto
      from link_pendingD [OF lk pq(1)]
      have a: "filter (\<lambda>r. snd r = d) (reactions s q) = [(f, d)]" "jobs_for d s = []" "is_pending s d"
        by auto
      from pq(2) obtain w where v: "promises s' q = Fulfilled w"
        by (cases "promises s' q") auto
      then have vw: "value_of s' q = w" by simp
      have "jobs_for d s' = jobs_for d s @ jobs_of (filter (\<lambda>x. snd x = d) (reactions s q)) w"
        using J True j0 rs0 vw by simp
      then have "jobs_for d s' = [(f, d, w)]"
        using a by (simp add: jobs_of_def)
      moreover have "is_pending s' d" using a(3) dsame by (simp add: is_pending_def)
      ultimately show ?thesis using v by (simp add: link_def)
    next
      case False
      then have qsame: "promises s' q = promises s q"
        using r p0 unfolding resolved_in_def by auto
      have "jobs_for d s' = jobs_for d s" using J False j0 by simp
      with qsame dsame lk show ?thesis
        by (auto simp: link_def is_pending_def split: pstate.splits)
    qed
  qed
  show ?thesis
  proof (cases rule: step_cases [of s a])
    case idle
    then show ?thesis using lk by (simp add: link_same_core)
  next
    case (emission e args)
    obtain qs where r: "resolved_in s qs (step a s)"
      and sub: "set qs \<subseteq> (\<Union>l\<in>set (on_event e s). resolves (callback l))"
      using emission_resolved [OF emission] by blast
    have "d \<notin> set qs" using sub noresolve_listener by (auto simp: on_event_def)
    with r show ?thesis by (intro core [of s qs]) simp_all
  next
    case (job f0 d0 v0 js)
    let ?s0 = "s\<lparr>queue := js\<rparr>"
    obtain qs where r: "resolved_in ?s0 qs (tick s)" and sub: "set qs \<subseteq> resolves f0 \<union> {d0}"
      using tick_resolved [OF job(2)] by blast
    have nr: "d \<notin> resolves f0" using noresolve_job [of f0 d0 v0] job(2) by simp
    show ?thesis
    proof (cases "d0 = d")
      case False
      have "jobs_for d ?s0 = jobs_for d s" using job(2) False by (simp add: jobs_for_def)
      moreover have "d \<notin> set qs" using sub nr False by auto
      ultimately show ?thesis using r job(1) by (simp add: core [of ?s0 qs])
    next
      case True
      have hd: "jobs_for d s = (f0, d0, v0) # jobs_for d ?s0"
        using job(2) True by (simp add: jobs_for_def)
      have qf: "\<not> is_pending s q"
      proof
        assume "is_pending s q"
        from link_pendingD [OF lk this] hd show False by simp
      qed
      then obtain w where qv: "promises s q = Fulfilled w"
        by (cases "promises s q") auto
      from link_fulfilledD [OF lk qv] hd
      have a: "f0 = f" "v0 = w" "jobs_for d ?s0 = []" "is_pending s d" by auto
      have dv: "promises (tick s) d = Fulfilled (ret f [w])"
        using tick_target_value [OF job(2)] nr a True by simp
      have qs': "promises (tick s) q = Fulfilled w"
        using step_stable [OF qv, of Tick] by simp
      have "reactions ?s0 = reactions s" by (simp add: reactions_def fun_eq_iff)
      then have o: "\<forall>q'\<in>set qs. q' \<noteq> q \<longrightarrow> (\<forall>x\<in>set (reactions ?s0 q'). snd x \<noteq> d)"
        using react by auto
      have "q \<notin> set qs" using r qf unfolding resolved_in_def by (auto simp: is_pending_def)
      with jobs_for_resolved [OF r o] a(3) have "jobs_for d (tick s) = []" by simp
      with dv qs' job(1) show ?thesis by (simp add: link_def)
    qed
  qed
qed

subsection \<open>The job queue drains\<close>








section \<open>onceAny: the invariant of one call\<close>

lemma oa_spec_cases:
  assumes "oa_spec n evs h q = Some (f, d)"
  obtains (member) j where "j < length evs" "q = n + j" "f = Resolve (oa_race n evs)"
      "d = n + length evs + 1 + j"
  | (race) "q = oa_race n evs" "f = OnceAnyWrapper h" "d = oa_handled n evs"
  | (handled) "q = oa_handled n evs" "f = OnceAnyCleanup evs (oa_rc n evs)" "d = oa_result n evs"
proof -
  consider "n \<le> q \<and> q < n + length evs" | "q = oa_race n evs" | "q = oa_handled n evs"
    using assms by (auto simp: oa_spec_def split: if_splits)
  then show ?thesis
  proof cases
    case 1
    then obtain j where "q = n + j" "j < length evs" by (metis le_Suc_ex nat_add_left_cancel_less)
    with assms 1 that(1) show ?thesis by (auto simp: oa_spec_def)
  next
    case 2
    with assms that(2) show ?thesis by (auto simp: oa_spec_def oa_race_def)
  next
    case 3
    with assms that(3) show ?thesis
      by (auto simp: oa_spec_def oa_race_def oa_handled_def split: if_splits)
  qed
qed

lemma oa_spec_member:
  "j < length evs \<Longrightarrow> oa_spec n evs h (n + j) = Some (Resolve (oa_race n evs), n + length evs + 1 + j)"
  by (simp add: oa_spec_def)

lemma oa_spec_race: "oa_spec n evs h (oa_race n evs) = Some (OnceAnyWrapper h, oa_handled n evs)"
  by (simp add: oa_spec_def oa_race_def)

lemma oa_spec_handled:
  "oa_spec n evs h (oa_handled n evs) = Some (OnceAnyCleanup evs (oa_rc n evs), oa_result n evs)"
  by (simp add: oa_spec_def oa_race_def oa_handled_def)

lemma oa_spec_target_in: "oa_spec n evs h q = Some (f, d) \<Longrightarrow> d \<in> oa_X n evs \<and> q \<in> oa_X n evs"
  by (erule oa_spec_cases) (auto simp: oa_X_def oa_race_def oa_handled_def oa_result_def)

lemma oa_spec_inj:
  "oa_spec n evs h q = Some (f, d) \<Longrightarrow> oa_spec n evs h q' = Some (f', d) \<Longrightarrow> q' = q \<and> f' = f"
  by (erule oa_spec_cases; erule oa_spec_cases)
     (auto simp: oa_race_def oa_handled_def oa_result_def)

lemma oa_spec_pure:
  assumes "fn_pids h \<inter> oa_X n evs = {}"
    and "oa_spec n evs h q = Some (f, d)" and "oa_spec n evs h q' = Some (f', d')"
  shows "d \<notin> resolves f'"
proof -
  have dX: "d \<in> oa_X n evs" using assms(2) oa_spec_target_in by blast
  with assms(1) have "d \<notin> resolves h" by (auto simp: fn_pids_def)
  with assms(2,3) show ?thesis
    by - (erule oa_spec_cases; erule oa_spec_cases;
          auto simp: oa_race_def oa_handled_def oa_result_def)
qed

lemma oa_ours_callback:
  "oa_ours n L evs l \<Longrightarrow> \<exists>j<length evs. callback l = Resolve (n + j) \<and> lid l = L + j \<and>
     ev_name l = evs ! j \<and> is_once l"
  by (auto simp: oa_ours_def oa_listener_def)

lemma oa_ours_not_target:
  "oa_ours n L evs l \<Longrightarrow> oa_spec n evs h q = Some (f, d) \<Longrightarrow> d \<notin> resolves (callback l)"
  by (erule oa_spec_cases) (auto dest!: oa_ours_callback simp: oa_handled_def oa_result_def)

lemma oa_links_step:
  assumes h: "fn_pids h \<inter> oa_X n evs = {}" and inv: "oa_inv n L evs h s"
    and sp: "oa_spec n evs h q = Some (f, d)"
  shows "link q f d (step a s)"
proof (rule link_step [where T = "touches (oa_X n evs)" and TL = "ltouches (oa_X n evs) (oa_LX L evs)"
      and spec = "oa_spec n evs h" and ours = "oa_ours n L evs"])
  show "owns (touches (oa_X n evs)) (ltouches (oa_X n evs) (oa_LX L evs)) (oa_spec n evs h)
     (oa_ours n L evs) s" using inv by (simp add: oa_inv_def)
  show "link q f d s" using inv sp by (simp add: oa_inv_def)
  have dX: "d \<in> oa_X n evs" using sp oa_spec_target_in by blast
  show "\<And>f'. touches (oa_X n evs) f' d" using dX by (simp add: touches_def)
  show "\<And>f' d'. d \<in> resolves f' \<Longrightarrow> touches (oa_X n evs) f' d'"
    using dX by (auto simp: touches_def fn_pids_def)
  show "\<And>l. d \<in> resolves (callback l) \<Longrightarrow> ltouches (oa_X n evs) (oa_LX L evs) l"
    using dX by (auto simp: ltouches_def fn_pids_def)
  show "\<And>q' f' d'. oa_spec n evs h q' = Some (f', d') \<Longrightarrow>
       d \<notin> resolves f' \<and> (d' = d \<longrightarrow> q' = q \<and> f' = f)"
    using oa_spec_pure [OF h sp] oa_spec_inj [OF sp] by blast
  show "\<And>l. oa_ours n L evs l \<Longrightarrow> d \<notin> resolves (callback l)"
    using sp oa_ours_not_target by blast
qed

lemma oa_inv_owns:
  "oa_inv n L evs h s \<Longrightarrow>
   owns (touches (oa_X n evs)) (ltouches (oa_X n evs) (oa_LX L evs)) (oa_spec n evs h)
     (oa_ours n L evs) s"
  by (simp add: oa_inv_def)

lemma oa_inv_link: "oa_inv n L evs h s \<Longrightarrow> oa_spec n evs h q = Some (f, d) \<Longrightarrow> link q f d s"
  by (simp add: oa_inv_def)

lemma oa_inv_listener:
  "oa_inv n L evs h s \<Longrightarrow> j < length evs \<Longrightarrow> is_pending s (n + j) \<Longrightarrow>
   is_pending s (oa_race n evs) \<Longrightarrow> oa_listener n L evs j \<in> set (listeners s)"
  by (simp add: oa_inv_def)

lemma oa_handled_value:
  assumes "oa_inv n L evs h s" and "promises s (oa_handled n evs) = Fulfilled u"
  shows "\<exists>w. promises s (oa_race n evs) = Fulfilled w \<and> u = Arr [w]"
  using link_target_value [OF oa_inv_link [OF assms(1) oa_spec_race] assms(2)] by simp

lemma oa_result_value:
  assumes "oa_inv n L evs h s" and "promises s (oa_result n evs) = Fulfilled u"
  shows "promises s (oa_handled n evs) = Fulfilled u"
  using link_target_value [OF oa_inv_link [OF assms(1) oa_spec_handled] assms(2)]
  by (auto simp: arg0_def)

text \<open>A listener that mentions a promise of the call, or has one of its ids, is the call's own.\<close>

lemma oa_listener_known:
  assumes "oa_inv n L evs h s" and "l \<in> set (listeners s)"
    and "fn_pids (callback l) \<inter> oa_X n evs \<noteq> {} \<or> lid l \<in> oa_LX L evs"
  shows "\<exists>j<length evs. l = oa_listener n L evs j"
  using owns_listener [OF oa_inv_owns [OF assms(1)] assms(2)] assms(3)
  by (simp add: ltouches_def oa_ours_def)

text \<open>A job that targets or mentions a promise of the call stems from one of its reactions.\<close>

lemma oa_job_known:
  assumes "oa_inv n L evs h s" and "(f, d, v) \<in> set (queue s)"
    and "d \<in> oa_X n evs \<or> fn_pids f \<inter> oa_X n evs \<noteq> {}"
  shows "\<exists>q. oa_spec n evs h q = Some (f, d) \<and> promises s q = Fulfilled v"
  using owns_job [OF oa_inv_owns [OF assms(1)] assms(2)] assms(3)
  by (simp add: touches_def)

lemma oa_member_in_X: "j < length evs \<Longrightarrow> n + j \<in> oa_X n evs"
  by (simp add: oa_X_def)

lemma oa_race_in_X: "oa_race n evs \<in> oa_X n evs"
  by (simp add: oa_X_def oa_race_def)

lemma oa_members_step:
  assumes h: "fn_pids h \<inter> oa_X n evs = {}" and inv: "oa_inv n L evs h s"
    and j: "j < length evs" and pm: "is_pending (step a s) (n + j)"
    and pr: "is_pending (step a s) (oa_race n evs)"
  shows "oa_listener n L evs j \<in> set (listeners (step a s))"
proof -
  let ?l = "oa_listener n L evs j"
  have pm0: "is_pending s (n + j)" using step_pending [OF pm] pm by (simp add: is_pending_def)
  have pr0: "is_pending s (oa_race n evs)" using step_pending [OF pr] pr by (simp add: is_pending_def)
  have l0: "?l \<in> set (listeners s)" using inv j pm0 pr0 by (rule oa_inv_listener)
  have cb: "callback ?l = Resolve (n + j)" by (simp add: oa_listener_def)
  from step_listener_cases [OF l0, of a] consider
    (keep) "?l \<in> set (listeners (step a s))"
    | (tick) f d v js p where "a = Tick" "queue s = (f, d, v) # js" "callback ?l = Resolve p"
        "p \<in> unlistens f"
    | (emit) e args l' where "emission_of a s = Some (e, args)" "l' \<in> set (on_event e s)"
        "is_once l' \<and> lid l' = lid ?l \<or> (\<exists>p. callback ?l = Resolve p \<and> p \<in> unlistens (callback l'))"
    by blast
  then show ?thesis
  proof cases
    case keep
    then show ?thesis .
  next
    case (tick f d v js p)
    from tick(3) cb have p: "p = n + j" by simp
    with tick(4) j have "fn_pids f \<inter> oa_X n evs \<noteq> {}"
      using oa_member_in_X [of j evs n] by (auto simp: fn_pids_def)
    moreover have "(f, d, v) \<in> set (queue s)" using tick(2) by simp
    ultimately obtain q' where sp: "oa_spec n evs h q' = Some (f, d)"
      and fv: "promises s q' = Fulfilled v"
      using oa_job_known [OF inv] by blast
    from sp show ?thesis
    proof (cases rule: oa_spec_cases)
      case (member i)
      with tick(4) show ?thesis by simp
    next
      case race
      with tick(4) h p j show ?thesis using oa_member_in_X [of j evs n] by (auto simp: fn_pids_def)
    next
      case handled
      with fv oa_handled_value [OF inv] pr0 show ?thesis by (auto simp: is_pending_def)
    qed
  next
    case (emit e args l')
    from emit(2) have l's: "l' \<in> set (listeners s)" and l'e: "ev_name l' = e"
      by (auto simp: on_event_def)
    from emit(3) show ?thesis
    proof
      assume o: "is_once l' \<and> lid l' = lid ?l"
      then have "lid l' \<in> oa_LX L evs" using j by (simp add: oa_listener_def oa_LX_def)
      with oa_listener_known [OF inv l's] obtain i where "i < length evs" "l' = oa_listener n L evs i"
        by blast
      with o have "l' = ?l" by (simp add: oa_listener_def)
      with emit(1) l's l'e cb have "\<not> is_pending (step a s) (n + j)"
        using emission_Resolve by blast
      with pm show ?thesis by simp
    next
      assume "\<exists>p. callback ?l = Resolve p \<and> p \<in> unlistens (callback l')"
      with cb have u: "n + j \<in> unlistens (callback l')" by simp
      then have "fn_pids (callback l') \<inter> oa_X n evs \<noteq> {}"
        using oa_member_in_X [OF j, of n] by (auto simp: fn_pids_def)
      with oa_listener_known [OF inv l's] obtain i where "l' = oa_listener n L evs i" by blast
      with u show ?thesis by (simp add: oa_listener_def)
    qed
  qed
qed

theorem oa_inv_step:
  assumes h: "fn_pids h \<inter> oa_X n evs = {}" and inv: "oa_inv n L evs h s"
  shows "oa_inv n L evs h (step a s)"
  unfolding oa_inv_def
proof (intro conjI allI impI)
  show "owns (touches (oa_X n evs)) (ltouches (oa_X n evs) (oa_LX L evs)) (oa_spec n evs h)
     (oa_ours n L evs) (step a s)"
    using oa_inv_owns [OF inv] by (rule owns_step)
next
  fix q f d assume "oa_spec n evs h q = Some (f, d)"
  with h inv show "link q f d (step a s)" by (rule oa_links_step)
next
  fix j assume "j < length evs" and "is_pending (step a s) (n + j) \<and> is_pending (step a s) (oa_race n evs)"
  then show "oa_listener n L evs j \<in> set (listeners (step a s))"
    using oa_members_step [OF h inv] by blast
qed

lemma oa_inv_exec:
  "fn_pids h \<inter> oa_X n evs = {} \<Longrightarrow> oa_inv n L evs h s \<Longrightarrow> oa_inv n L evs h (exec as s)"
  by (induction as arbitrary: s) (simp_all add: exec_def oa_inv_step)

subsection \<open>The race and the emissions\<close>

lemma first_hit_same: "first_hit evs (hist @ []) = first_hit evs hist"
  by simp

lemma first_hit_keep: "first_hit evs hist = Some w \<Longrightarrow> first_hit evs (hist @ xs) = Some w"
  by (auto simp: first_hit_def hits_def split: list.splits)

lemma first_hit_new:
  "first_hit evs hist = None \<Longrightarrow>
   first_hit evs (hist @ [(e, args)]) = (if e \<in> set evs then Some (arg0 args) else None)"
  by (auto simp: first_hit_def hits_def split: list.splits)


text \<open>The race promise changes only when a job of the race runs.\<close>

lemma oa_race_same:
  assumes h: "fn_pids h \<inter> oa_X n evs = {}" and inv: "oa_inv n L evs h s"
    and nh: "\<not> (\<exists>x v js. a = Tick \<and> queue s = (Resolve (oa_race n evs), x, v) # js)"
  shows "promises (step a s) (oa_race n evs) = promises s (oa_race n evs)"
proof -
  let ?R = "oa_race n evs"
  from step_promise_cases [of a s ?R] consider
    (same) "promises (step a s) ?R = promises s ?R"
    | (tick) f d v js where "a = Tick" "queue s = (f, d, v) # js" "d = ?R \<or> ?R \<in> resolves f"
    | (emit) e args l where "emission_of a s = Some (e, args)" "l \<in> set (on_event e s)"
        "?R \<in> resolves (callback l)"
    by blast
  then show ?thesis
  proof cases
    case same
    then show ?thesis .
  next
    case (tick f d v js)
    have "d \<in> oa_X n evs \<or> fn_pids f \<inter> oa_X n evs \<noteq> {}"
      using tick(3) oa_race_in_X [of n evs] by (auto simp: fn_pids_def)
    moreover have "(f, d, v) \<in> set (queue s)" using tick(2) by simp
    ultimately obtain q where sp: "oa_spec n evs h q = Some (f, d)"
      using oa_job_known [OF inv] by blast
    from sp show ?thesis
    proof (cases rule: oa_spec_cases)
      case (member j)
      with tick nh show ?thesis by simp
    next
      case race
      with tick(3) h show ?thesis
        using oa_race_in_X [of n evs] by (auto simp: fn_pids_def oa_race_def oa_handled_def)
    next
      case handled
      with tick(3) show ?thesis by (auto simp: oa_race_def oa_result_def)
    qed
  next
    case (emit e args l)
    from emit(2) have "l \<in> set (listeners s)" by (simp add: on_event_def)
    moreover have "fn_pids (callback l) \<inter> oa_X n evs \<noteq> {}"
      using emit(3) oa_race_in_X [of n evs] by (auto simp: fn_pids_def)
    ultimately obtain j where "j < length evs" "l = oa_listener n L evs j"
      using oa_listener_known [OF inv] by blast
    with emit(3) show ?thesis by (simp add: oa_listener_def oa_race_def)
  qed
qed

text \<open>A member changes only when its event is emitted, and then to the first argument.\<close>

lemma oa_member_change:
  assumes h: "fn_pids h \<inter> oa_X n evs = {}" and inv: "oa_inv n L evs h s" and j: "j < length evs"
    and ch: "promises (step a s) (n + j) \<noteq> promises s (n + j)"
  shows "\<exists>args. emission_of a s = Some (evs ! j, args) \<and>
           promises (step a s) (n + j) = Fulfilled (arg0 args)"
proof -
  let ?m = "n + j"
  have mX: "?m \<in> oa_X n evs" using j by (rule oa_member_in_X)
  from step_promise_cases [of a s ?m] ch consider
    (tick) f d v js where "a = Tick" "queue s = (f, d, v) # js" "d = ?m \<or> ?m \<in> resolves f"
    | (emit) e args l where "emission_of a s = Some (e, args)" "l \<in> set (on_event e s)"
        "?m \<in> resolves (callback l)"
    by blast
  then show ?thesis
  proof cases
    case (tick f d v js)
    have "d \<in> oa_X n evs \<or> fn_pids f \<inter> oa_X n evs \<noteq> {}"
      using tick(3) mX by (auto simp: fn_pids_def)
    moreover have "(f, d, v) \<in> set (queue s)" using tick(2) by simp
    ultimately obtain q where sp: "oa_spec n evs h q = Some (f, d)"
      using oa_job_known [OF inv] by blast
    from sp have False
    proof (cases rule: oa_spec_cases)
      case (member i)
      with tick(3) j show ?thesis by (auto simp: oa_race_def)
    next
      case race
      with tick(3) h mX j show ?thesis by (auto simp: fn_pids_def oa_handled_def)
    next
      case handled
      with tick(3) j show ?thesis by (auto simp: oa_result_def)
    qed
    then show ?thesis ..
  next
    case (emit e args l)
    have known: "\<And>l'. l' \<in> set (on_event e s) \<Longrightarrow> ?m \<in> resolves (callback l') \<Longrightarrow>
        l' = oa_listener n L evs j"
    proof -
      fix l' assume a: "l' \<in> set (on_event e s)" "?m \<in> resolves (callback l')"
      then have "l' \<in> set (listeners s)" by (simp add: on_event_def)
      moreover have "fn_pids (callback l') \<inter> oa_X n evs \<noteq> {}"
        using a(2) mX by (auto simp: fn_pids_def)
      ultimately obtain i where "i < length evs" "l' = oa_listener n L evs i"
        using oa_listener_known [OF inv] by blast
      with a(2) show "l' = oa_listener n L evs j" by (simp add: oa_listener_def)
    qed
    from known [OF emit(2,3)] emit(2) have e: "e = evs ! j"
      by (simp add: on_event_def oa_listener_def)
    have p0: "is_pending s ?m"
    proof (rule ccontr)
      assume "\<not> is_pending s ?m"
      then obtain v where "promises s ?m = Fulfilled v" by (cases "promises s ?m") auto
      with step_stable [of s ?m v a] ch show False by simp
    qed
    have p1: "\<not> is_pending (step a s) ?m"
    proof
      assume "is_pending (step a s) ?m"
      from step_pending [OF this] ch show False by simp
    qed
    have "\<forall>l'\<in>set (on_event e s). ?m \<in> resolves (callback l') \<longrightarrow> callback l' = Resolve ?m"
    proof (intro ballI impI)
      fix l' assume "l' \<in> set (on_event e s)" "?m \<in> resolves (callback l')"
      from known [OF this] show "callback l' = Resolve ?m" by (simp add: oa_listener_def)
    qed
    from emission_value [OF emit(1) p0 p1 this] emit(1) e show ?thesis by blast
  qed
qed

lemma oa_member_fired:
  assumes inv: "oa_inv n L evs h s" and j: "j < length evs"
    and em: "emission_of a s = Some (evs ! j, args)"
    and pm: "is_pending s (n + j)" and pr: "is_pending s (oa_race n evs)"
  shows "\<not> is_pending (step a s) (n + j)"
proof -
  have "oa_listener n L evs j \<in> set (listeners s)" using inv j pm pr by (rule oa_inv_listener)
  from emission_Resolve [OF em this] show ?thesis by (simp add: oa_listener_def)
qed

text \<open>While all members and the race are pending, no job of the call is in the queue.\<close>

lemma oa_quiet:
  assumes inv: "oa_inv n L evs h s" and pm: "\<forall>j<length evs. is_pending s (n + j)"
    and pr: "is_pending s (oa_race n evs)" and j: "(f, d, v) \<in> set (queue s)"
  shows "d \<notin> oa_X n evs \<and> fn_pids f \<inter> oa_X n evs = {}"
proof (rule ccontr)
  assume "\<not> (d \<notin> oa_X n evs \<and> fn_pids f \<inter> oa_X n evs = {})"
  then have "d \<in> oa_X n evs \<or> fn_pids f \<inter> oa_X n evs \<noteq> {}" by blast
  from oa_job_known [OF inv j this] obtain q where sp: "oa_spec n evs h q = Some (f, d)"
    and fv: "promises s q = Fulfilled v" by blast
  from sp show False
  proof (cases rule: oa_spec_cases)
    case (member i)
    with pm fv show ?thesis by (auto simp: is_pending_def)
  next
    case race
    with pr fv show ?thesis by (auto simp: is_pending_def)
  next
    case handled
    with fv oa_handled_value [OF inv] pr show ?thesis by (auto simp: is_pending_def)
  qed
qed

lemma oa_ghost_NoneD:
  "oa_ghost n evs hist s \<Longrightarrow> first_hit evs hist = None \<Longrightarrow>
   (\<forall>j<length evs. is_pending s (n + j)) \<and> is_pending s (oa_race n evs)"
  by (simp add: oa_ghost_def)

lemma oa_ghost_SomeD:
  "oa_ghost n evs hist s \<Longrightarrow> first_hit evs hist = Some w \<Longrightarrow>
   promises s (oa_race n evs) = Fulfilled w \<or>
   (is_pending s (oa_race n evs) \<and>
    (\<exists>x rest. race_jobs (oa_race n evs) s = (Resolve (oa_race n evs), x, w) # rest))"
  by (simp add: oa_ghost_def)

theorem oa_ghost_step:
  assumes h: "fn_pids h \<inter> oa_X n evs = {}" and inv: "oa_inv n L evs h s"
    and g: "oa_ghost n evs hist s"
  shows "oa_ghost n evs (hist @ (case emission_of a s of None \<Rightarrow> [] | Some x \<Rightarrow> [x])) (step a s)"
proof -
  let ?R = "oa_race n evs"
  let ?s' = "step a s"
  let ?hist' = "hist @ (case emission_of a s of None \<Rightarrow> [] | Some x \<Rightarrow> [x])"
  let ?base = "if a = Tick then tl (queue s) else queue s"
  obtain new where Q: "queue ?s' = ?base @ new"
    and N1: "\<And>f d v. (f, d, v) \<in> set new \<Longrightarrow>
        \<exists>q. (f, d) \<in> set (reactions s q) \<and> is_pending s q \<and> promises ?s' q = Fulfilled v"
    and N2: "\<And>q. is_pending s q \<Longrightarrow> \<not> is_pending ?s' q \<Longrightarrow>
        set (jobs_of (reactions s q) (value_of ?s' q)) \<subseteq> set new"
    using step_queue_new [of a s] by blast
  show ?thesis
  proof (cases "first_hit evs hist")
    case None
    from oa_ghost_NoneD [OF g None]
    have pm: "\<forall>j<length evs. is_pending s (n + j)" and pr: "is_pending s ?R" by auto
    have quiet: "\<And>f d v. (f, d, v) \<in> set (queue s) \<Longrightarrow> d \<notin> oa_X n evs \<and> fn_pids f \<inter> oa_X n evs = {}"
      using oa_quiet [OF inv pm pr] by blast
    have nh: "\<not> (\<exists>x v js. a = Tick \<and> queue s = (Resolve ?R, x, v) # js)"
    proof
      assume "\<exists>x v js. a = Tick \<and> queue s = (Resolve ?R, x, v) # js"
      then obtain x v js where "queue s = (Resolve ?R, x, v) # js" by blast
      then have "(Resolve ?R, x, v) \<in> set (queue s)" by simp
      from quiet [OF this] show False using oa_race_in_X [of n evs] by (simp add: fn_pids_def)
    qed
    have Rsame: "promises ?s' ?R = promises s ?R" using h inv nh by (rule oa_race_same)
    then have pr': "is_pending ?s' ?R" using pr by (simp add: is_pending_def)
    have norace: "race_jobs ?R s = []"
    proof -
      have "\<forall>y\<in>set (queue s). fst y \<noteq> Resolve ?R"
      proof
        fix y assume y: "y \<in> set (queue s)"
        obtain f d v where "y = (f, d, v)" by (cases y) auto
        with quiet [of f d v] y show "fst y \<noteq> Resolve ?R"
          using oa_race_in_X [of n evs] by (auto simp: fn_pids_def)
      qed
      then show ?thesis by (simp add: race_jobs_def filter_empty_conv)
    qed
    show ?thesis
    proof (cases "\<exists>e args. emission_of a s = Some (e, args) \<and> e \<in> set evs")
      case False
      then have fh: "first_hit evs ?hist' = None"
        using None by (cases "emission_of a s") (auto simp: first_hit_new)
      have "\<forall>j<length evs. is_pending ?s' (n + j)"
      proof (intro allI impI)
        fix j assume j: "j < length evs"
        have "promises ?s' (n + j) = promises s (n + j)"
        proof (rule ccontr)
          assume "promises ?s' (n + j) \<noteq> promises s (n + j)"
          from oa_member_change [OF h inv j this] j False show False by auto
        qed
        with pm j show "is_pending ?s' (n + j)" by (simp add: is_pending_def)
      qed
      with pr' fh show ?thesis by (simp add: oa_ghost_def)
    next
      case True
      then obtain e args where em: "emission_of a s = Some (e, args)" and e: "e \<in> set evs" by blast
      let ?w = "arg0 args"
      have fh: "first_hit evs ?hist' = Some ?w" using None em e by (simp add: first_hit_new)
      have nt: "a \<noteq> Tick" using em by (rule emission_not_Tick)
      have rj: "race_jobs ?R ?s' = filter (\<lambda>j. fst j = Resolve ?R) new"
        using Q nt norace by (simp add: race_jobs_def)
      have allw: "\<forall>y\<in>set (race_jobs ?R ?s'). fst y = Resolve ?R \<and> snd (snd y) = ?w"
      proof
        fix y assume "y \<in> set (race_jobs ?R ?s')"
        then have yn: "y \<in> set new" and yf: "fst y = Resolve ?R" using rj by auto
        obtain d v where y: "y = (Resolve ?R, d, v)" using yf by (cases y) auto
        from N1 [of "Resolve ?R" d v] yn y obtain q where q: "(Resolve ?R, d) \<in> set (reactions s q)"
          "is_pending s q" "promises ?s' q = Fulfilled v" by blast
        have "touches (oa_X n evs) (Resolve ?R) d"
          using oa_race_in_X [of n evs] by (simp add: touches_def fn_pids_def)
        from owns_reaction [OF oa_inv_owns [OF inv] q(1) this]
        have sp: "oa_spec n evs h q = Some (Resolve ?R, d)" .
        then obtain i where i: "i < length evs" "q = n + i"
          by (cases rule: oa_spec_cases) auto
        have "promises ?s' (n + i) \<noteq> promises s (n + i)"
        proof
          assume "promises ?s' (n + i) = promises s (n + i)"
          with q(3) i have "promises s (n + i) = Fulfilled v" by simp
          then have "\<not> is_pending s (n + i)" by simp
          with q(2) i show False by simp
        qed
        from oa_member_change [OF h inv i(1) this] em q(3) i have "v = ?w" by auto
        with y show "fst y = Resolve ?R \<and> snd (snd y) = ?w" by simp
      qed
      have ne: "race_jobs ?R ?s' \<noteq> []"
      proof -
        from e obtain j where j: "j < length evs" "evs ! j = e" by (auto simp: in_set_conv_nth)
        have pj: "is_pending s (n + j)" using pm j by simp
        have "\<not> is_pending ?s' (n + j)"
          using oa_member_fired [OF inv j(1) _ pj pr] em j by simp
        from N2 [OF pj this]
        have sub: "set (jobs_of (reactions s (n + j)) (value_of ?s' (n + j))) \<subseteq> set new" .
        have "link (n + j) (Resolve ?R) (n + length evs + 1 + j) s"
          using inv oa_spec_member [OF j(1)] by (rule oa_inv_link)
        from link_pendingD [OF this pj]
        have "filter (\<lambda>r. snd r = n + length evs + 1 + j) (reactions s (n + j)) =
            [(Resolve ?R, n + length evs + 1 + j)]" by simp
        then have "(Resolve ?R, n + length evs + 1 + j) \<in> set (filter (\<lambda>r. snd r = n + length evs + 1 + j) (reactions s (n + j)))"
          by simp
        then have "(Resolve ?R, n + length evs + 1 + j) \<in> set (reactions s (n + j))" by simp
        then have "(Resolve ?R, n + length evs + 1 + j, value_of ?s' (n + j)) \<in>
            set (jobs_of (reactions s (n + j)) (value_of ?s' (n + j)))"
          by (force simp: jobs_of_def)
        with sub have "(Resolve ?R, n + length evs + 1 + j, value_of ?s' (n + j)) \<in> set new" by blast
        then have "(Resolve ?R, n + length evs + 1 + j, value_of ?s' (n + j)) \<in> set (race_jobs ?R ?s')"
          using rj by simp
        then show ?thesis by auto
      qed
      then obtain y rest where yr: "race_jobs ?R ?s' = y # rest" by (cases "race_jobs ?R ?s'") auto
      with allw have "fst y = Resolve ?R \<and> snd (snd y) = ?w" by simp
      then have "y = (Resolve ?R, fst (snd y), ?w)" by (cases y) auto
      with yr have "\<exists>x rest. race_jobs ?R ?s' = (Resolve ?R, x, ?w) # rest" by metis
      with pr' fh show ?thesis by (simp add: oa_ghost_def)
    qed
  next
    case (Some w)
    then have fh: "first_hit evs ?hist' = Some w" by (rule first_hit_keep)
    from oa_ghost_SomeD [OF g Some] show ?thesis
    proof
      assume "promises s ?R = Fulfilled w"
      then have "promises ?s' ?R = Fulfilled w" by (rule step_stable)
      with fh show ?thesis by (simp add: oa_ghost_def)
    next
      assume "is_pending s ?R \<and> (\<exists>x rest. race_jobs ?R s = (Resolve ?R, x, w) # rest)"
      then obtain x rest where pr: "is_pending s ?R" and rj: "race_jobs ?R s = (Resolve ?R, x, w) # rest"
        by blast
      show ?thesis
      proof (cases "\<exists>x v js. a = Tick \<and> queue s = (Resolve ?R, x, v) # js")
        case True
        then obtain x0 v0 js where a: "a = Tick" and q: "queue s = (Resolve ?R, x0, v0) # js" by blast
        from q rj have "v0 = w" by (simp add: race_jobs_def)
        with tick_Resolve [OF q pr] a have "promises ?s' ?R = Fulfilled w" by simp
        with fh show ?thesis by (simp add: oa_ghost_def)
      next
        case False
        have "promises ?s' ?R = promises s ?R" using h inv False by (rule oa_race_same)
        then have pr': "is_pending ?s' ?R" using pr by (simp add: is_pending_def)
        have fb: "filter (\<lambda>j. fst j = Resolve ?R) ?base = race_jobs ?R s"
        proof (cases "a = Tick")
          case nt: False
          then show ?thesis by (simp add: race_jobs_def)
        next
          case t: True
          show ?thesis
          proof (cases "queue s")
            case Nil
            with t show ?thesis by (simp add: race_jobs_def)
          next
            case (Cons y js)
            obtain f d v where y: "y = (f, d, v)" by (cases y) auto
            with Cons False t have "f \<noteq> Resolve ?R" by auto
            with Cons y t show ?thesis by (simp add: race_jobs_def)
          qed
        qed
        have "race_jobs ?R ?s' = race_jobs ?R s @ filter (\<lambda>j. fst j = Resolve ?R) new"
          using Q fb by (simp add: race_jobs_def)
        with rj have "\<exists>x rest. race_jobs ?R ?s' = (Resolve ?R, x, w) # rest" by simp
        with pr' fh show ?thesis by (simp add: oa_ghost_def)
      qed
    qed
  qed
qed

section \<open>The state a call builds\<close>

lemma wf_state_unalloc: "wf_state s \<Longrightarrow> unalloc s"
  by (simp add: wf_state_def unalloc_def)

lemma new_promise_eq:
  assumes "unalloc s"
  shows "new_promise s = (next_pid s, s\<lparr>next_pid := Suc (next_pid s)\<rparr>)"
proof -
  have "(promises s)(next_pid s := Pending []) = promises s"
    using assms by (simp add: unalloc_def fun_upd_idem)
  then show ?thesis by (simp add: new_promise_def)
qed

lemma promise_then_eq:
  assumes "unalloc s" and "is_pending s q"
  shows "promise_then q f s =
    (next_pid s, s\<lparr>promises := (promises s)(q := Pending (reactions s q @ [(f, next_pid s)])),
                   next_pid := Suc (next_pid s)\<rparr>)"
proof -
  from assms(2) obtain rs where "promises s q = Pending rs" by (cases "promises s q") auto
  then show ?thesis
    by (simp add: promise_then_def new_promise_eq [OF assms(1)])
qed

lemma promise_then_settled:
  assumes "unalloc s" and "promises s q = Fulfilled v"
  shows "promise_then q f s =
    (next_pid s, s\<lparr>queue := queue s @ [(f, next_pid s, v)], next_pid := Suc (next_pid s)\<rparr>)"
  using assms(2) by (simp add: promise_then_def new_promise_eq [OF assms(1)])

lemma unalloc_next [simp]:
  "unalloc s \<Longrightarrow> unalloc (s\<lparr>next_pid := Suc (next_pid s)\<rparr>)"
  by (simp add: unalloc_def)

lemma once_eq:
  "once e f s = s\<lparr>listeners := listeners s @ [\<lparr>lid = next_lid s, ev_name = e, is_once = True, callback = f\<rparr>],
                  next_lid := Suc (next_lid s)\<rparr>"
  by (simp add: once_def add_listener_def)

lemma oa_listener_Cons:
  "map (oa_listener n L (e # es)) [0..<Suc (length es)] =
   \<lparr>lid = L, ev_name = e, is_once = True, callback = Resolve n\<rparr> #
   map (oa_listener (Suc n) (Suc L) es) [0..<length es]"
proof -
  have "[0..<Suc (length es)] = 0 # [Suc 0..<Suc (length es)]" by (rule upt_conv_Cons) simp
  also have "[Suc 0..<Suc (length es)] = map Suc [0..<length es]" by (rule map_Suc_upt [symmetric])
  finally have "map (oa_listener n L (e # es)) [0..<Suc (length es)] =
      oa_listener n L (e # es) 0 # map (oa_listener n L (e # es) \<circ> Suc) [0..<length es]"
    by (simp only: list.map map_map)
  moreover have "oa_listener n L (e # es) \<circ> Suc = oa_listener (Suc n) (Suc L) es"
    by (simp add: fun_eq_iff oa_listener_def)
  ultimately show ?thesis by (simp add: oa_listener_def)
qed

lemma members_Cons:
  "map (\<lambda>j. n + j) [0..<Suc k] = n # map (\<lambda>j. Suc n + j) [0..<k]"
proof -
  have "[0..<Suc k] = 0 # [Suc 0..<Suc k]" by (rule upt_conv_Cons) simp
  also have "[Suc 0..<Suc k] = map Suc [0..<k]" by (rule map_Suc_upt [symmetric])
  finally have "map (\<lambda>j. n + j) [0..<Suc k] = (n + 0) # map ((\<lambda>j. n + j) \<circ> Suc) [0..<k]"
    by (simp only: list.map map_map)
  moreover have "(\<lambda>j. n + j) \<circ> Suc = (\<lambda>j. Suc n + j)" by (simp add: fun_eq_iff)
  ultimately show ?thesis by simp
qed

lemma onceAny_promises_eq:
  assumes "unalloc s"
  shows "onceAny_promises evs rc s =
    (map (\<lambda>j. next_pid s + j) [0..<length evs],
     (if evs = [] then rc else Some (next_pid s + length evs - 1)),
     s\<lparr>next_pid := next_pid s + length evs, next_lid := next_lid s + length evs,
       listeners := listeners s @ map (oa_listener (next_pid s) (next_lid s) evs) [0..<length evs]\<rparr>)"
  using assms
proof (induction evs arbitrary: rc s)
  case Nil
  then show ?case by simp
next
  case (Cons e es)
  let ?s2 = "once e (Resolve (next_pid s)) (s\<lparr>next_pid := Suc (next_pid s)\<rparr>)"
  have u2: "unalloc ?s2" using Cons.prems by (simp add: unalloc_def once_eq)
  have n2: "next_pid ?s2 = Suc (next_pid s)" "next_lid ?s2 = Suc (next_lid s)"
    by (simp_all add: once_eq)
  note IH = Cons.IH [OF u2, of "Some (next_pid s)"]
  show ?case
    unfolding onceAny_promises.simps new_promise_eq [OF Cons.prems] Let_def prod.case IH
    by (simp add: once_eq oa_listener_Cons members_Cons del: upt_Suc)
qed

lemma race_elements_members:
  assumes "unalloc s" and "next_pid s = D + i" and "n + k \<le> D"
    and "\<forall>j. i \<le> j \<and> j < k \<longrightarrow> promises s (n + j) = Pending []"
  shows "race_elements r (map (\<lambda>j. n + j) [i..<k]) s =
    s\<lparr>promises := race_promises n i k r D (promises s), next_pid := D + max i k\<rparr>"
  using assms
proof (induction "k - i" arbitrary: i s)
  case 0
  then have e: "[i..<k] = []" by simp
  have "race_promises n i k r D (promises s) = promises s"
    using 0 by (auto simp: fun_eq_iff race_promises_def)
  moreover have "D + max i k = next_pid s" using 0 by (simp add: max_def)
  ultimately show ?case unfolding e by simp
next
  case (Suc m)
  then have ik: "i < k" by simp
  then have upt: "[i..<k] = i # [Suc i..<k]" by (rule upt_conv_Cons)
  have pend: "is_pending s (n + i)" using Suc.prems(4) ik by (simp add: is_pending_def)
  have re: "reactions s (n + i) = []" using Suc.prems(4) ik by (simp add: reactions_def)
  let ?s1 = "s\<lparr>promises := (promises s)(n + i := Pending [(Resolve r, next_pid s)]),
                 next_pid := Suc (next_pid s)\<rparr>"
  have then_eq: "promise_then (n + i) (Resolve r) s = (next_pid s, ?s1)"
    using promise_then_eq [OF Suc.prems(1) pend] re by simp
  have u1: "unalloc ?s1" using Suc.prems(1,2,3) ik by (auto simp: unalloc_def)
  have n1: "next_pid ?s1 = D + Suc i" using Suc.prems(2) by simp
  have p1: "\<forall>j. Suc i \<le> j \<and> j < k \<longrightarrow> promises ?s1 (n + j) = Pending []"
    using Suc.prems(4) by auto
  have m: "m = k - Suc i" using Suc.hyps(2) by simp
  note IH = Suc.hyps(1) [OF m u1 n1 Suc.prems(3) p1]
  have mx: "max (Suc i) k = max i k" using ik by simp
  have f: "race_promises n (Suc i) k r D (promises ?s1) = race_promises n i k r D (promises s)"
    using Suc.prems(2) ik by (auto simp: fun_eq_iff race_promises_def)
  have "race_elements r (map (\<lambda>j. n + j) [i..<k]) s =
        race_elements r (map (\<lambda>j. n + j) [Suc i..<k]) ?s1"
    unfolding upt by (simp add: then_eq)
  also have "\<dots> = ?s1\<lparr>promises := race_promises n (Suc i) k r D (promises ?s1),
                        next_pid := D + max (Suc i) k\<rparr>" by (rule IH)
  also have "\<dots> = s\<lparr>promises := race_promises n i k r D (promises s), next_pid := D + max i k\<rparr>"
    unfolding f mx by simp
  finally show ?case .
qed

lemma oa_promises_built:
  assumes "unalloc s" and nk: "n = next_pid s" and k: "k = length evs"
  shows "(race_promises n 0 k (n + k) (Suc (n + k)) (promises s))
          (n + k := Pending [(OnceAnyWrapper h, Suc (n + k) + k)],
           Suc (n + k) + k := Pending [(OnceAnyCleanup evs (oa_rc n evs), Suc (Suc (n + k) + k))])
         = oa_promises n evs h (promises s)"
proof
  fix p
  have un: "\<And>p. n \<le> p \<Longrightarrow> promises s p = Pending []" using assms by (simp add: unalloc_def)
  show "((race_promises n 0 k (n + k) (Suc (n + k)) (promises s))
          (n + k := Pending [(OnceAnyWrapper h, Suc (n + k) + k)],
           Suc (n + k) + k := Pending [(OnceAnyCleanup evs (oa_rc n evs), Suc (Suc (n + k) + k))])) p
         = oa_promises n evs h (promises s) p"
    using k un [of p]
    by (auto simp: oa_promises_def oa_spec_def oa_X_def oa_race_def oa_handled_def oa_result_def
          race_promises_def)
qed

theorem onceAny_eq:
  assumes u: "unalloc s"
  shows "onceAny events handler s =
    (oa_result (next_pid s) (as_list events),
     oa_state (as_list events) (or_noop handler) s)"
proof -
  define evs where "evs = as_list events"
  define h where "h = or_noop handler"
  define n where "n = next_pid s"
  define k where "k = length evs"
  define s1 where "s1 = s\<lparr>next_pid := n + k, next_lid := next_lid s + k,
       listeners := listeners s @ map (oa_listener n (next_lid s) evs) [0..<k]\<rparr>"
  have un: "\<And>p. n \<le> p \<Longrightarrow> promises s p = Pending []" using u by (simp add: unalloc_def n_def)
  have rc: "(if evs = [] then None else Some (n + k - 1)) = oa_rc n evs"
    by (simp add: oa_rc_def k_def)
  have m1: "onceAny_promises evs None s = (map (\<lambda>j. n + j) [0..<k], oa_rc n evs, s1)"
    using rc unfolding onceAny_promises_eq [OF u] s1_def n_def k_def by simp
  have u1: "unalloc s1" using un by (simp add: unalloc_def s1_def)
  define s2 where "s2 = s1\<lparr>next_pid := Suc (n + k)\<rparr>"
  have np: "new_promise s1 = (n + k, s2)"
    using new_promise_eq [OF u1] by (simp add: s1_def s2_def)
  have u2: "unalloc s2" using un by (simp add: unalloc_def s2_def s1_def)
  have p2: "\<forall>j. 0 \<le> j \<and> j < k \<longrightarrow> promises s2 (n + j) = Pending []"
    using un by (simp add: s2_def s1_def)
  have n2: "next_pid s2 = Suc (n + k) + 0" by (simp add: s2_def)
  define s3 where "s3 = s2\<lparr>promises := race_promises n 0 k (n + k) (Suc (n + k)) (promises s2),
      next_pid := Suc (n + k) + max 0 k\<rparr>"
  have race: "race_elements (n + k) (map (\<lambda>j. n + j) [0..<k]) s2 = s3"
    unfolding s3_def by (rule race_elements_members [OF u2 n2 _ p2]) simp
  have u3: "unalloc s3" using un by (simp add: unalloc_def s3_def s2_def s1_def race_promises_def)
  have pr: "is_pending s3 (n + k)" "reactions s3 (n + k) = []" "next_pid s3 = Suc (n + k) + k"
    using un by (simp_all add: is_pending_def reactions_def s3_def s2_def s1_def race_promises_def)
  define s4 where "s4 = s3\<lparr>promises := (promises s3)(n + k := Pending [(OnceAnyWrapper h, Suc (n + k) + k)]),
               next_pid := Suc (Suc (n + k) + k)\<rparr>"
  have t1: "promise_then (n + k) (OnceAnyWrapper h) s3 = (Suc (n + k) + k, s4)"
    using promise_then_eq [OF u3 pr(1)] pr(2,3) by (simp add: s4_def)
  have u4: "unalloc s4"
    using un by (simp add: unalloc_def s4_def s3_def s2_def s1_def race_promises_def)
  have pt: "is_pending s4 (Suc (n + k) + k)" "reactions s4 (Suc (n + k) + k) = []"
    "next_pid s4 = Suc (Suc (n + k) + k)"
    using un by (simp_all add: is_pending_def reactions_def s4_def s3_def s2_def s1_def race_promises_def)
  define s5 where "s5 = s4\<lparr>promises := (promises s4)(Suc (n + k) + k :=
                  Pending [(OnceAnyCleanup evs (oa_rc n evs), Suc (Suc (n + k) + k))]),
               next_pid := Suc (Suc (Suc (n + k) + k))\<rparr>"
  have t2: "promise_then (Suc (n + k) + k) (OnceAnyCleanup evs (oa_rc n evs)) s4 =
      (Suc (Suc (n + k) + k), s5)"
    using promise_then_eq [OF u4 pt(1)] pt(2,3) by (simp add: s5_def)
  have call: "onceAny events handler s = (Suc (Suc (n + k) + k), s5)"
    unfolding onceAny_def Let_def evs_def [symmetric] h_def [symmetric] m1 prod.case
      promise_race_def np race t1 t2 ..
  have ps: "promises s5 = oa_promises n evs h (promises s)"
    using oa_promises_built [OF u n_def k_def, of h]
    by (simp add: s5_def s4_def s3_def s2_def s1_def)
  have ps': "promises s5 = promises (oa_state evs h s)"
    using ps by (simp add: oa_state_def n_def)
  have fin: "s5 = oa_state evs h s"
  proof (rule state.equality)
    show "promises s5 = promises (oa_state evs h s)" by (fact ps')
  qed (simp_all add: oa_state_def s5_def s4_def s3_def s2_def s1_def n_def k_def)
  have res: "Suc (Suc (n + k) + k) = oa_result n evs" by (simp add: oa_result_def k_def)
  from call fin res show ?thesis by (simp add: evs_def h_def n_def)
qed

subsection \<open>The state after onceAny satisfies the invariant\<close>

lemma oa_state_fields [simp]:
  "queue (oa_state evs h s) = queue s"
  "calls (oa_state evs h s) = calls s"
  "started (oa_state evs h s) = started s"
  "all_values (oa_state evs h s) = all_values s"
  "all_remaining (oa_state evs h s) = all_remaining s"
  "debug_log (oa_state evs h s) = debug_log s"
  "translate (oa_state evs h s) = translate s"
  "i18n_pending (oa_state evs h s) = i18n_pending s"
  "fatal (oa_state evs h s) = fatal s"
  "next_pid (oa_state evs h s) = next_pid s + 2 * length evs + 3"
  "next_lid (oa_state evs h s) = next_lid s + length evs"
  "listeners (oa_state evs h s) =
     listeners s @ map (oa_listener (next_pid s) (next_lid s) evs) [0..<length evs]"
  "promises (oa_state evs h s) = oa_promises (next_pid s) evs h (promises s)"
  by (simp_all add: oa_state_def)

lemma oa_promises_in:
  "p \<in> oa_X n evs \<Longrightarrow>
   oa_promises n evs h old p = Pending (case oa_spec n evs h p of None \<Rightarrow> [] | Some r \<Rightarrow> [r])"
  by (simp add: oa_promises_def)

lemma oa_promises_out: "p \<notin> oa_X n evs \<Longrightarrow> oa_promises n evs h old p = old p"
  by (simp add: oa_promises_def)

lemma oa_state_old:
  "p < next_pid s \<Longrightarrow> promises (oa_state evs h s) p = promises s p"
  by (simp add: oa_promises_def oa_X_def)

lemma oa_state_reactions:
  assumes "unalloc s" and "(f, d) \<in> set (reactions (oa_state evs h s) q)"
  shows "(q < next_pid s \<and> (f, d) \<in> set (reactions s q)) \<or>
         oa_spec (next_pid s) evs h q = Some (f, d)"
proof (cases "q \<in> oa_X (next_pid s) evs")
  case True
  with assms(2) show ?thesis
    by (auto simp: reactions_def oa_promises_in split: option.splits)
next
  case False
  then have e: "promises (oa_state evs h s) q = promises s q" by (simp add: oa_promises_out)
  show ?thesis
  proof (cases "q < next_pid s")
    case True
    with assms(2) e show ?thesis by (simp add: reactions_def)
  next
    case False
    with assms(1) have "promises s q = Pending []" by (simp add: unalloc_def)
    with assms(2) e show ?thesis by (simp add: reactions_def)
  qed
qed


lemma oa_state_pending:
  "p \<in> oa_X (next_pid s) evs \<Longrightarrow> is_pending (oa_state evs h s) p"
  by (simp add: is_pending_def oa_promises_in)

theorem oa_state_inv:
  assumes wf: "wf_state s" and h: "\<forall>p\<in>fn_pids h. p < next_pid s"
  shows "oa_inv (next_pid s) (next_lid s) evs h (oa_state evs h s)"
proof -
  let ?n = "next_pid s" and ?L = "next_lid s" and ?s' = "oa_state evs h s"
  let ?X = "oa_X ?n evs"
  have u: "unalloc s" using wf by (rule wf_state_unalloc)
  have oldr: "\<And>q f d. (f, d) \<in> set (reactions s q) \<Longrightarrow> d < ?n \<and> (\<forall>p\<in>fn_pids f. p < ?n)"
    using wf unfolding wf_state_def by blast
  have oldj: "\<And>f d v. (f, d, v) \<in> set (queue s) \<Longrightarrow> d < ?n \<and> (\<forall>p\<in>fn_pids f. p < ?n)"
    using wf unfolding wf_state_def by blast
  have oldl: "\<And>l. l \<in> set (listeners s) \<Longrightarrow> lid l < ?L \<and> (\<forall>p\<in>fn_pids (callback l). p < ?n)"
    using wf unfolding wf_state_def by blast
  have notouch: "\<And>f d. d < ?n \<Longrightarrow> \<forall>p\<in>fn_pids f. p < ?n \<Longrightarrow> \<not> touches ?X f d"
    by (auto simp: touches_def oa_X_def)
  have own: "owns (touches ?X) (ltouches ?X (oa_LX ?L evs)) (oa_spec ?n evs h) (oa_ours ?n ?L evs) ?s'"
    unfolding owns_def
  proof (intro conjI allI impI ballI)
    fix q f d assume r: "(f, d) \<in> set (reactions ?s' q)" and t: "touches ?X f d"
    from oa_state_reactions [OF u r] show "oa_spec ?n evs h q = Some (f, d)"
    proof
      assume "q < ?n \<and> (f, d) \<in> set (reactions s q)"
      with oldr notouch t show ?thesis by blast
    qed
  next
    fix f d v assume "(f, d, v) \<in> set (queue ?s')" and t: "touches ?X f d"
    then have "(f, d, v) \<in> set (queue s)" by simp
    with oldj notouch t show "\<exists>q. oa_spec ?n evs h q = Some (f, d) \<and> promises ?s' q = Fulfilled v"
      by blast
  next
    fix l assume l: "l \<in> set (listeners ?s')" and t: "ltouches ?X (oa_LX ?L evs) l"
    from l consider "l \<in> set (listeners s)" | j where "j < length evs" "l = oa_listener ?n ?L evs j"
      by auto
    then show "oa_ours ?n ?L evs l"
    proof cases
      case 1
      with oldl t show ?thesis by (fastforce simp: ltouches_def oa_X_def oa_LX_def)
    next
      case 2
      then show ?thesis by (auto simp: oa_ours_def)
    qed
  qed
  have links: "\<forall>q f d. oa_spec ?n evs h q = Some (f, d) \<longrightarrow> link q f d ?s'"
  proof (intro allI impI)
    fix q f d assume sp: "oa_spec ?n evs h q = Some (f, d)"
    then have qX: "q \<in> ?X" and dX: "d \<in> ?X" using oa_spec_target_in by blast+
    have pq: "promises ?s' q = Pending [(f, d)]" using qX sp by (simp add: oa_promises_in)
    have "\<forall>j\<in>set (queue s). fst (snd j) \<noteq> d"
    proof
      fix j assume j: "j \<in> set (queue s)"
      obtain f' d' v' where "j = (f', d', v')" by (cases j) auto
      with oldj [of f' d' v'] j dX show "fst (snd j) \<noteq> d" by (auto simp: oa_X_def)
    qed
    then have jf: "jobs_for d ?s' = []" by (simp add: jobs_for_def filter_empty_conv)
    have pd: "is_pending ?s' d" using dX by (rule oa_state_pending)
    from pq jf pd show "link q f d ?s'" by (simp add: link_def)
  qed
  have mem: "\<forall>j<length evs. is_pending ?s' (?n + j) \<and> is_pending ?s' (oa_race ?n evs) \<longrightarrow>
      oa_listener ?n ?L evs j \<in> set (listeners ?s')" by simp
  from own links mem show ?thesis unfolding oa_inv_def by blast
qed

lemma oa_state_ghost: "oa_ghost (next_pid s) evs [] (oa_state evs h s)"
proof -
  have "first_hit evs [] = None" by (simp add: first_hit_def hits_def)
  moreover have "\<forall>j<length evs. is_pending (oa_state evs h s) (next_pid s + j)"
    by (simp add: oa_state_pending oa_member_in_X)
  moreover have "is_pending (oa_state evs h s) (oa_race (next_pid s) evs)"
    by (simp add: oa_state_pending oa_race_in_X)
  ultimately show ?thesis by (simp add: oa_ghost_def)
qed


lemma handler_old_X:
  "\<forall>p\<in>fn_pids h. p < n \<Longrightarrow> fn_pids h \<inter> oa_X n evs = {}"
  by (auto simp: oa_X_def)

section \<open>after: where the promises of a call lie\<close>

lemma tsize_pos [simp]: "0 < tsize t"
  by (simp add: tsize_def split: target.splits)

lemma tsize_simps [simp]: "tsize (Ev e) = 1" "tsize (AnyOf g) = 2 * length g + 4"
  by (simp_all add: tsize_def)

lemma lsize_simps [simp]: "lsize (Ev e) = 1" "lsize (AnyOf g) = length g"
  by (simp_all add: lsize_def)

lemma ebase_0 [simp]: "ebase n ts 0 = n"
  by (simp add: ebase_def)

lemma lbase_0 [simp]: "lbase L ts 0 = L"
  by (simp add: lbase_def)

lemma ebase_Suc: "i < length ts \<Longrightarrow> ebase n ts (Suc i) = ebase n ts i + tsize (ts ! i)"
  by (simp add: ebase_def take_Suc_conv_app_nth)


lemma ebase_Cons: "ebase n (t # ts) (Suc i) = ebase (n + tsize t) ts i"
  by (simp add: ebase_def)

lemma lbase_Cons: "lbase L (t # ts) (Suc i) = lbase (L + lsize t) ts i"
  by (simp add: lbase_def)

lemma take_split: "i \<le> j \<Longrightarrow> take j ts = take i ts @ take (j - i) (drop i ts)"
  by (metis le_add_diff_inverse take_add)

lemma ebase_mono: "i \<le> j \<Longrightarrow> ebase n ts i \<le> ebase n ts j"
  by (simp add: ebase_def take_split [of i j])


lemma ebase_ge: "n \<le> ebase n ts i"
  by (simp add: ebase_def)


lemma ebase_next:
  assumes "i < j" and "j \<le> length ts"
  shows "ebase n ts i + tsize (ts ! i) \<le> ebase n ts j"
proof -
  have "ebase n ts (Suc i) \<le> ebase n ts j" using assms(1) by (intro ebase_mono) simp
  then show ?thesis using assms by (simp add: ebase_Suc)
qed


lemma ebase_end: "i < length ts \<Longrightarrow> ebase n ts i + tsize (ts ! i) \<le> af_all n ts"
  unfolding af_all_def by (rule ebase_next) simp_all


lemma ebase_less_all: "i < length ts \<Longrightarrow> ebase n ts i < af_all n ts"
  using ebase_end [of i ts n] tsize_pos [of "ts ! i"] by linarith

lemma af_all_ge: "n \<le> af_all n ts"
  by (simp add: af_all_def ebase_ge)

lemma af_all_Nil [simp]: "af_all n [] = n"
  by (simp add: af_all_def)

lemma af_all_Cons: "af_all n (t # ts) = af_all (n + tsize t) ts"
  by (simp add: af_all_def ebase_Cons)

text \<open>The ranges of two elements do not overlap.\<close>

lemma el_unique:
  assumes "i < length ts" and "j < length ts"
    and "ebase n ts i \<le> p" and "p < ebase n ts i + tsize (ts ! i)"
    and "ebase n ts j \<le> p" and "p < ebase n ts j + tsize (ts ! j)"
  shows "i = j"
proof (rule ccontr)
  assume "i \<noteq> j"
  then consider "i < j" | "j < i" by linarith
  then show False
  proof cases
    case 1
    from ebase_next [OF 1, of ts n] assms show ?thesis by simp
  next
    case 2
    from ebase_next [OF 2, of ts n] assms show ?thesis by simp
  qed
qed

lemma ebase_inj: "i < length ts \<Longrightarrow> j < length ts \<Longrightarrow> ebase n ts i = ebase n ts j \<Longrightarrow> i = j"
  using el_unique [of i ts j n "ebase n ts i"] tsize_pos [of "ts ! i"] tsize_pos [of "ts ! j"]
  by simp

lemma el_of_SomeD:
  assumes "el_of n ts q = Some i"
  shows "i < length ts \<and> ebase n ts i \<le> q \<and> q < ebase n ts i + tsize (ts ! i)"
proof -
  let ?P = "\<lambda>i. ebase n ts i \<le> q \<and> q < ebase n ts (Suc i)"
  from assms obtain rest where "filter ?P [0..<length ts] = i # rest"
    by (auto simp: el_of_def split: list.splits)
  then have "i \<in> set (filter ?P [0..<length ts])" by simp
  then have "i < length ts" and "?P i" by simp_all
  then show ?thesis by (simp add: ebase_Suc)
qed

lemma el_of_eq:
  assumes "i < length ts" and "ebase n ts i \<le> q" and "q < ebase n ts i + tsize (ts ! i)"
  shows "el_of n ts q = Some i"
proof -
  let ?P = "\<lambda>i. ebase n ts i \<le> q \<and> q < ebase n ts (Suc i)"
  have "i \<in> set (filter ?P [0..<length ts])" using assms by (simp add: ebase_Suc)
  then obtain j rest where f: "filter ?P [0..<length ts] = j # rest"
    by (cases "filter ?P [0..<length ts]") auto
  then have e: "el_of n ts q = Some j" by (simp add: el_of_def)
  from el_of_SomeD [OF e] assms have "j = i" using el_unique by blast
  with e show ?thesis by simp
qed

lemma el_of_base: "i < length ts \<Longrightarrow> el_of n ts (ebase n ts i) = Some i"
  by (rule el_of_eq) simp_all

lemma el_of_out: "q < n \<or> af_all n ts \<le> q \<Longrightarrow> el_of n ts q = None"
proof (rule ccontr)
  assume o: "q < n \<or> af_all n ts \<le> q" and "el_of n ts q \<noteq> None"
  then obtain i where "el_of n ts q = Some i" by auto
  from el_of_SomeD [OF this] o ebase_ge [of n ts i] ebase_end [of i ts n] show False by linarith
qed

lemma el_of_Cons:
  "el_of n (t # ts) q =
     (if q < n then None else if q < n + tsize t then Some 0
      else map_option Suc (el_of (n + tsize t) ts q))"
proof -
  consider "q < n" | "n \<le> q" "q < n + tsize t" | "n + tsize t \<le> q" by linarith
  then show ?thesis
  proof cases
    case 1
    then show ?thesis by (simp add: el_of_out)
  next
    case 2
    have "el_of n (t # ts) q = Some 0" using 2 by (intro el_of_eq) simp_all
    with 2 show ?thesis by simp
  next
    case 3
    show ?thesis
    proof (cases "el_of (n + tsize t) ts q")
      case None
      have "el_of n (t # ts) q = None"
      proof (rule ccontr)
        assume "el_of n (t # ts) q \<noteq> None"
        then obtain j where j: "el_of n (t # ts) q = Some j" by auto
        note D = el_of_SomeD [OF j]
        show False
        proof (cases j)
          case 0
          with D 3 show ?thesis by simp
        next
          case (Suc i)
          with D have "el_of (n + tsize t) ts q = Some i"
            by (intro el_of_eq) (simp_all add: ebase_Cons)
          with None show ?thesis by simp
        qed
      qed
      with None 3 show ?thesis by simp
    next
      case (Some i)
      note D = el_of_SomeD [OF Some]
      have "el_of n (t # ts) q = Some (Suc i)"
        using D by (intro el_of_eq) (simp_all add: ebase_Cons)
      with Some 3 show ?thesis by simp
    qed
  qed
qed

subsection \<open>The reactions the call installs\<close>

lemma group_spec_base [simp]: "group_spec b t b = None"
  by (simp add: group_spec_def oa_spec_def oa_race_def oa_handled_def split: target.splits)



lemma after_spec_final: "after_spec n ts h (af_all n ts) = Some (AfterWrapper h, af_result n ts)"
  by (simp add: after_spec_def)

lemma after_spec_elem:
  assumes "i < length ts"
  shows "after_spec n ts h (ebase n ts i) = Some (AllElement (af_all n ts) i, af_all n ts + 1 + i)"
  using assms ebase_less_all [OF assms, of n] by (simp add: after_spec_def el_of_base el_spec_def)




section \<open>after: the state a call builds\<close>

lemma upt_shift: "[0..<Suc k] = 0 # map Suc [0..<k]"
proof -
  have "[0..<Suc k] = 0 # [Suc 0..<Suc k]" by (rule upt_conv_Cons) simp
  also have "[Suc 0..<Suc k] = map Suc [0..<k]" by (rule map_Suc_upt [symmetric])
  finally show ?thesis .
qed

lemma map_upt_shift: "map f [0..<Suc k] = f 0 # map (\<lambda>i. f (Suc i)) [0..<k]"
  unfolding upt_shift by (simp add: comp_def)

lemma ebases_Cons:
  "map (ebase n (t # ts)) [0..<Suc (length ts)] =
   n # map (ebase (n + tsize t) ts) [0..<length ts]"
  unfolding map_upt_shift by (simp add: ebase_Cons)

lemma af_listeners_Cons:
  "af_listeners n L (t # ts) =
   el_listeners n L t @ af_listeners (n + tsize t) (L + lsize t) ts"
proof -
  have "af_listeners n L (t # ts) =
      concat (map (\<lambda>i. el_listeners (ebase n (t # ts) i) (lbase L (t # ts) i) ((t # ts) ! i))
        [0..<Suc (length ts)])"
    by (simp add: af_listeners_def)
  also have "\<dots> = el_listeners n L t @
      concat (map (\<lambda>i. el_listeners (ebase (n + tsize t) ts i) (lbase (L + lsize t) ts i) (ts ! i))
        [0..<length ts])"
    unfolding map_upt_shift by (simp add: ebase_Cons lbase_Cons)
  finally show ?thesis by (simp add: af_listeners_def)
qed

lemma els_spec_Cons:
  "els_spec n (t # ts) p =
     (if p < n then None else if p < n + tsize t then group_spec n t p
      else els_spec (n + tsize t) ts p)"
  by (auto simp: els_spec_def el_of_Cons ebase_Cons split: option.splits)

lemma opt_list_simps [simp]: "opt_list None = []" "opt_list (Some x) = [x]"
  by (simp_all add: opt_list_def)

lemma oa_promises_opt:
  "oa_promises n evs h old p =
     (if p \<in> oa_X n evs then Pending (opt_list (oa_spec n evs h p)) else old p)"
  by (simp add: oa_promises_def opt_list_def)

lemma els_promises_Cons:
  assumes un: "\<And>p. n \<le> p \<Longrightarrow> old p = Pending []"
  shows "els_promises (n + tsize t) ts
           (case t of Ev e \<Rightarrow> old | AnyOf g \<Rightarrow> oa_promises (Suc n) g (Resolve n) old) =
         els_promises n (t # ts) old"
proof
  fix p
  let ?n2 = "n + tsize t"
  let ?old' = "case t of Ev e \<Rightarrow> old | AnyOf g \<Rightarrow> oa_promises (Suc n) g (Resolve n) old"
  have A: "af_all n (t # ts) = af_all ?n2 ts" by (rule af_all_Cons)
  have ge: "?n2 \<le> af_all ?n2 ts" by (rule af_all_ge)
  have out: "p < n \<or> ?n2 \<le> p \<Longrightarrow> ?old' p = old p"
    by (cases t) (auto simp: oa_promises_opt oa_X_def)
  have mid: "n \<le> p \<Longrightarrow> p < ?n2 \<Longrightarrow> ?old' p = Pending (opt_list (group_spec n t p))"
  proof (cases t)
    case (Ev e)
    assume "n \<le> p"
    with un Ev show ?thesis by (simp add: group_spec_def)
  next
    case (AnyOf g)
    assume p: "n \<le> p" "p < ?n2"
    show ?thesis
    proof (cases "p = n")
      case True
      with un AnyOf show ?thesis by (simp add: oa_promises_opt oa_X_def)
    next
      case False
      with p AnyOf have "p \<in> oa_X (Suc n) g" by (simp add: oa_X_def)
      with AnyOf show ?thesis by (simp add: oa_promises_opt group_spec_def)
    qed
  qed
  consider "p < n" | "n \<le> p" "p < ?n2" | "?n2 \<le> p" by linarith
  then show "els_promises ?n2 ts ?old' p = els_promises n (t # ts) old p"
  proof cases
    case 1
    with out show ?thesis by (simp add: els_promises_def)
  next
    case 2
    with mid ge show ?thesis by (simp add: els_promises_def A els_spec_Cons)
  next
    case 3
    with out show ?thesis by (simp add: els_promises_def A els_spec_Cons)
  qed
qed

lemma els_promises_Nil: "els_promises n [] old = old"
  by (auto simp: fun_eq_iff els_promises_def)

lemma els_state_Nil: "els_state [] s = s"
  by (simp add: els_state_def els_promises_Nil af_listeners_def lbase_def)

theorem after_promises_eq:
  assumes "unalloc s"
  shows "after_promises ts s = (map (ebase (next_pid s) ts) [0..<length ts], els_state ts s)"
  using assms
proof (induction ts arbitrary: s)
  case Nil
  then show ?case by (simp add: els_state_Nil)
next
  case (Cons t ts)
  let ?n = "next_pid s" and ?L = "next_lid s"
  define s1 where "s1 = s\<lparr>next_pid := Suc ?n\<rparr>"
  have un: "\<And>p. ?n \<le> p \<Longrightarrow> promises s p = Pending []" using Cons.prems by (simp add: unalloc_def)
  have np: "new_promise s = (?n, s1)" unfolding s1_def by (rule new_promise_eq [OF Cons.prems])
  have u1: "unalloc s1" using Cons.prems by (simp add: s1_def)
  define s2 where "s2 = (case t of
      AnyOf names \<Rightarrow> snd (onceAny (Many names) (Some (Resolve ?n)) s1)
    | Ev eventName \<Rightarrow> once eventName (Resolve ?n) s1)"
  have s2: "s2 = (case t of
      AnyOf g \<Rightarrow> oa_state g (Resolve ?n) s1
    | Ev e \<Rightarrow> s1\<lparr>listeners := listeners s1 @ [ev_listener ?n (next_lid s1) e],
                    next_lid := Suc (next_lid s1)\<rparr>)"
  proof (cases t)
    case (Ev e)
    then show ?thesis by (simp add: s2_def once_eq ev_listener_def)
  next
    case (AnyOf g)
    have "snd (onceAny (Many g) (Some (Resolve ?n)) s1) = oa_state g (Resolve ?n) s1"
      unfolding onceAny_eq [OF u1] by (simp add: or_noop_def)
    with AnyOf show ?thesis by (simp add: s2_def)
  qed
  have f2: "next_pid s2 = ?n + tsize t" "next_lid s2 = ?L + lsize t"
    "listeners s2 = listeners s @ el_listeners ?n ?L t"
    "promises s2 = (case t of Ev e \<Rightarrow> promises s
                    | AnyOf g \<Rightarrow> oa_promises (Suc ?n) g (Resolve ?n) (promises s))"
    "queue s2 = queue s" "calls s2 = calls s" "started s2 = started s"
    "all_values s2 = all_values s" "all_remaining s2 = all_remaining s"
    "debug_log s2 = debug_log s" "translate s2 = translate s"
    "i18n_pending s2 = i18n_pending s" "fatal s2 = fatal s"
    unfolding s2 by (cases t; simp add: s1_def el_listeners_def)+
  have u2: "unalloc s2"
    using un by (cases t) (auto simp: unalloc_def f2 oa_promises_opt oa_X_def)
  note IH = Cons.IH [OF u2]
  have call: "after_promises (t # ts) s =
      (?n # map (ebase (?n + tsize t) ts) [0..<length ts], els_state ts s2)"
    unfolding after_promises.simps Let_def np prod.case s2_def [symmetric] IH prod.case f2(1) ..
  have st: "els_state ts s2 = els_state (t # ts) s"
  proof (rule state.equality)
    show "promises (els_state ts s2) = promises (els_state (t # ts) s)"
      using els_promises_Cons [of ?n "promises s" t ts] un by (simp add: els_state_def f2)
    show "listeners (els_state ts s2) = listeners (els_state (t # ts) s)"
      by (simp add: els_state_def f2 af_listeners_Cons)
  qed (simp_all add: els_state_def f2 af_all_Cons lbase_Cons)
  show ?case unfolding call st using ebases_Cons [of ?n t ts] by simp
qed

subsection \<open>Promise.all over the element promises\<close>

lemma all_promises_out:
  "\<forall>j. i \<le> j \<and> j < m \<longrightarrow> E j \<noteq> p \<Longrightarrow> all_promises r E i m old p = old p"
proof -
  assume "\<forall>j. i \<le> j \<and> j < m \<longrightarrow> E j \<noteq> p"
  then have "filter (\<lambda>j. E j = p) [i..<m] = []" by (simp add: filter_empty_conv)
  then show ?thesis by (simp add: all_promises_def)
qed

lemma inj_lt: "inj_on E {..<m} \<Longrightarrow> i < m \<Longrightarrow> j < m \<Longrightarrow> E j = E i \<Longrightarrow> j = (i::nat)"
  by (simp add: inj_on_def)

lemma all_promises_in:
  assumes "i \<le> j" and "j < m" and "inj_on E {..<m}"
  shows "all_promises r E i m old (E j) = Pending [(AllElement r j, r + 1 + j)]"
proof -
  have "j \<in> set (filter (\<lambda>j'. E j' = E j) [i..<m])" using assms by simp
  then obtain j' rest where f: "filter (\<lambda>j'. E j' = E j) [i..<m] = j' # rest"
    by (cases "filter (\<lambda>j'. E j' = E j) [i..<m]") auto
  then have "j' \<in> set (filter (\<lambda>j'. E j' = E j) [i..<m])" by simp
  then have "j' < m" "E j' = E j" by simp_all
  with assms have "j' = j" using inj_lt [of E m j j'] by simp
  with f show ?thesis by (simp add: all_promises_def)
qed

lemma all_promises_step:
  assumes "i < m" and "inj_on E {..<m}"
  shows "all_promises r E (Suc i) m (old(E i := Pending [(AllElement r i, r + 1 + i)])) =
         all_promises r E i m old"
proof
  fix p
  show "all_promises r E (Suc i) m (old(E i := Pending [(AllElement r i, r + 1 + i)])) p =
        all_promises r E i m old p"
  proof (cases "p = E i")
    case True
    have "\<forall>j. Suc i \<le> j \<and> j < m \<longrightarrow> E j \<noteq> E i"
      using inj_lt [OF assms(2,1)] by fastforce
    from all_promises_out [OF this]
    have "all_promises r E (Suc i) m (old(E i := Pending [(AllElement r i, r + 1 + i)])) (E i)
        = Pending [(AllElement r i, r + 1 + i)]"
      by simp
    moreover have "all_promises r E i m old (E i) = Pending [(AllElement r i, r + 1 + i)]"
      using assms by (intro all_promises_in) simp_all
    ultimately show ?thesis using True by simp
  next
    case False
    have "[i..<m] = i # [Suc i..<m]" using assms(1) by (rule upt_conv_Cons)
    then have "filter (\<lambda>j. E j = p) [i..<m] = filter (\<lambda>j. E j = p) [Suc i..<m]"
      using False by simp
    with False show ?thesis by (simp add: all_promises_def split: list.splits)
  qed
qed

lemma all_elements_eq:
  assumes "unalloc s" and "next_pid s = r + 1 + i" and "\<forall>j<m. E j \<le> r"
    and "\<forall>j. i \<le> j \<and> j < m \<longrightarrow> promises s (E j) = Pending []" and "inj_on E {..<m}"
  shows "all_elements r i (map E [i..<m]) s =
    s\<lparr>promises := all_promises r E i m (promises s), next_pid := r + 1 + max i m,
      all_values := (all_values s)(r := all_values s r @ replicate (m - i) Undefined),
      all_remaining := (all_remaining s)(r := all_remaining s r + (m - i))\<rparr>"
  using assms(1,2,4)
proof (induction "m - i" arbitrary: i s)
  case 0
  then have e: "[i..<m] = []" by simp
  have "all_promises r E i m (promises s) = promises s"
    unfolding all_promises_def e by simp
  moreover have "r + 1 + max i m = next_pid s" using 0 by (simp add: max_def)
  ultimately show ?case unfolding e using 0 by simp
next
  case (Suc k)
  then have im: "i < m" by simp
  then have upt: "[i..<m] = i # [Suc i..<m]" by (rule upt_conv_Cons)
  define s1 where "s1 = s\<lparr>all_values := (all_values s)(r := all_values s r @ [Undefined]),
      all_remaining := (all_remaining s)(r := Suc (all_remaining s r))\<rparr>"
  have u1: "unalloc s1" using Suc.prems(1) by (simp add: unalloc_def s1_def)
  have pe: "promises s1 (E i) = Pending []" using Suc.prems(3) im by (simp add: s1_def)
  then have pend: "is_pending s1 (E i)" and re: "reactions s1 (E i) = []" by simp_all
  define s2 where "s2 = s1\<lparr>promises := (promises s1)(E i := Pending [(AllElement r i, r + 1 + i)]),
      next_pid := Suc (r + 1 + i)\<rparr>"
  have then_eq: "promise_then (E i) (AllElement r i) s1 = (next_pid s1, s2)"
    using promise_then_eq [OF u1 pend] re Suc.prems(2) by (simp add: s2_def s1_def)
  have Ei: "E i \<le> r" using assms(3) im by simp
  have u2: "unalloc s2" using Suc.prems(1,2) Ei by (auto simp: unalloc_def s2_def s1_def)
  have n2: "next_pid s2 = r + 1 + Suc i" by (simp add: s2_def)
  have p2: "\<forall>j. Suc i \<le> j \<and> j < m \<longrightarrow> promises s2 (E j) = Pending []"
  proof (intro allI impI)
    fix j assume j: "Suc i \<le> j \<and> j < m"
    with inj_lt [OF assms(5) im, of j] have "E j \<noteq> E i" by auto
    with Suc.prems(3) j show "promises s2 (E j) = Pending []" by (simp add: s2_def s1_def)
  qed
  have k: "k = m - Suc i" using Suc.hyps(2) by simp
  note IH = Suc.hyps(1) [OF k u2 n2 p2]
  have mx: "max (Suc i) m = max i m" using im by simp
  have d: "m - i = Suc (m - Suc i)" using im by simp
  have ps: "all_promises r E (Suc i) m (promises s2) = all_promises r E i m (promises s)"
    using all_promises_step [OF im assms(5), of r "promises s"] by (simp add: s2_def s1_def)
  have "all_elements r i (map E [i..<m]) s = all_elements r (Suc i) (map E [Suc i..<m]) s2"
    unfolding upt by (simp add: Let_def s1_def [symmetric] then_eq)
  also have "\<dots> = s2\<lparr>promises := all_promises r E (Suc i) m (promises s2),
      next_pid := r + 1 + max (Suc i) m,
      all_values := (all_values s2)(r := all_values s2 r @ replicate (m - Suc i) Undefined),
      all_remaining := (all_remaining s2)(r := all_remaining s2 r + (m - Suc i))\<rparr>"
    by (rule IH)
  also have "\<dots> = s\<lparr>promises := all_promises r E i m (promises s), next_pid := r + 1 + max i m,
      all_values := (all_values s)(r := all_values s r @ replicate (m - i) Undefined),
      all_remaining := (all_remaining s)(r := all_remaining s r + (m - i))\<rparr>"
    unfolding ps mx d by (simp add: s2_def s1_def)
  finally show ?case .
qed

subsection \<open>The whole call\<close>

lemma els_state_fields [simp]:
  "queue (els_state ts s) = queue s"
  "calls (els_state ts s) = calls s"
  "started (els_state ts s) = started s"
  "all_values (els_state ts s) = all_values s"
  "all_remaining (els_state ts s) = all_remaining s"
  "debug_log (els_state ts s) = debug_log s"
  "translate (els_state ts s) = translate s"
  "i18n_pending (els_state ts s) = i18n_pending s"
  "fatal (els_state ts s) = fatal s"
  "next_pid (els_state ts s) = af_all (next_pid s) ts"
  "next_lid (els_state ts s) = lbase (next_lid s) ts (length ts)"
  "listeners (els_state ts s) = listeners s @ af_listeners (next_pid s) (next_lid s) ts"
  "promises (els_state ts s) = els_promises (next_pid s) ts (promises s)"
  by (simp_all add: els_state_def)

lemma els_state_unalloc: "unalloc s \<Longrightarrow> unalloc (els_state ts s)"
  using af_all_ge [of "next_pid s" ts] by (auto simp: unalloc_def els_promises_def)

lemma els_spec_base: "i < length ts \<Longrightarrow> els_spec n ts (ebase n ts i) = None"
  by (simp add: els_spec_def el_of_base)

lemma els_promises_base:
  "i < length ts \<Longrightarrow> els_promises n ts old (ebase n ts i) = Pending []"
  using ebase_ge [of n ts i] ebase_less_all [of i ts n]
  by (simp add: els_promises_def els_spec_base)

lemma after_spec_other:
  assumes "q \<noteq> af_all n ts" and "\<forall>i<length ts. q \<noteq> ebase n ts i"
  shows "after_spec n ts h q = els_spec n ts q"
proof (cases "el_of n ts q")
  case None
  with assms show ?thesis by (simp add: after_spec_def els_spec_def)
next
  case (Some i)
  from el_of_SomeD [OF Some] assms(2) have "q \<noteq> ebase n ts i" by simp
  with Some assms(1) show ?thesis by (simp add: after_spec_def els_spec_def el_spec_def)
qed

lemma af_promises_built:
  assumes un: "\<And>p. n \<le> p \<Longrightarrow> old p = Pending []" and ne: "ts \<noteq> []"
  shows "(all_promises (af_all n ts) (ebase n ts) 0 (length ts) (els_promises n ts old))
           (af_all n ts := Pending [(AfterWrapper h, af_all n ts + length ts + 1)]) =
         af_promises n ts h old"
proof
  fix p
  let ?A = "af_all n ts" and ?K = "length ts" and ?E = "ebase n ts"
  let ?lhs = "((all_promises ?A ?E 0 ?K (els_promises n ts old))
           (?A := Pending [(AfterWrapper h, ?A + ?K + 1)])) p"
  have inj: "inj_on ?E {..<?K}" by (auto simp: inj_on_def dest: ebase_inj)
  have nA: "n \<le> ?A" by (rule af_all_ge)
  consider "p = ?A" | i where "i < ?K" "p = ?E i" | "p \<noteq> ?A" "\<forall>i<?K. p \<noteq> ?E i" by blast
  then show "?lhs = af_promises n ts h old p"
  proof cases
    case 1
    with nA ne show ?thesis
      by (simp add: af_promises_def af_X_def after_spec_final af_result_def)
  next
    case (2 i)
    have lt: "?E i < ?A" using 2(1) by (rule ebase_less_all)
    have "?lhs = Pending [(AllElement ?A i, ?A + 1 + i)]"
      using 2 lt all_promises_in [OF _ 2(1) inj, of 0 ?A] by simp
    moreover have "af_promises n ts h old p = Pending [(AllElement ?A i, ?A + 1 + i)]"
      using 2 lt ne ebase_ge [of n ts i]
      by (simp add: af_promises_def af_X_def after_spec_elem)
    ultimately show ?thesis by simp
  next
    case 3
    have "\<forall>j. 0 \<le> j \<and> j < ?K \<longrightarrow> ?E j \<noteq> p" using 3(2) by auto
    from all_promises_out [OF this] 3(1)
    have l: "?lhs = els_promises n ts old p" by simp
    have sp: "after_spec n ts h p = els_spec n ts p" using 3 by (rule after_spec_other)
    consider "p < n" | "n \<le> p" "p < ?A" | "?A < p" using 3(1) by linarith
    then show ?thesis
    proof cases
      case 1
      with l nA show ?thesis by (simp add: els_promises_def af_promises_def af_X_def)
    next
      case 2
      with l ne sp show ?thesis by (simp add: els_promises_def af_promises_def af_X_def)
    next
      case 3
      then have "els_spec n ts p = None" by (simp add: els_spec_def el_of_out)
      with 3 l sp un [of p] nA show ?thesis
        by (simp add: els_promises_def af_promises_def)
    qed
  qed
qed

lemma af_promises_Nil:
  assumes un: "\<And>p. n \<le> p \<Longrightarrow> old p = Pending []"
  shows "old(n := Fulfilled (Arr [])) = af_promises n [] h old"
proof
  fix p
  show "(old(n := Fulfilled (Arr []))) p = af_promises n [] h old p"
    using un [of p]
    by (auto simp: af_promises_def af_X_def after_spec_def el_of_out)
qed

theorem after_eq:
  assumes u: "unalloc s"
  shows "after events handler s =
    (af_result (next_pid s) (as_list events), af_state (as_list events) (or_noop handler) s)"
proof -
  define ts where "ts = as_list events"
  define h where "h = or_noop handler"
  define n where "n = next_pid s"
  define A where "A = af_all n ts"
  define K where "K = length ts"
  define E where "E = ebase n ts"
  have un: "\<And>p. n \<le> p \<Longrightarrow> promises s p = Pending []" using u by (simp add: unalloc_def n_def)
  have nA: "n \<le> A" unfolding A_def by (rule af_all_ge)
  define s1 where "s1 = els_state ts s"
  have m1: "after_promises ts s = (map E [0..<K], s1)"
    unfolding after_promises_eq [OF u] s1_def E_def K_def n_def ..
  have u1: "unalloc s1" unfolding s1_def using u by (rule els_state_unalloc)
  have n1: "next_pid s1 = A" by (simp add: s1_def A_def n_def)
  have un1: "\<And>p. A \<le> p \<Longrightarrow> promises s1 p = Pending []" using u1 n1 by (simp add: unalloc_def)
  define s2 where "s2 = s1\<lparr>next_pid := Suc A, all_values := (all_values s1)(A := []),
      all_remaining := (all_remaining s1)(A := 1)\<rparr>"
  have np: "new_promise s1 = (A, s1\<lparr>next_pid := Suc A\<rparr>)"
    using new_promise_eq [OF u1] n1 by simp
  have u2: "unalloc s2" using un1 by (simp add: unalloc_def s2_def)
  have n2: "next_pid s2 = A + 1 + 0" by (simp add: s2_def)
  have le: "\<forall>j<K. E j \<le> A"
  proof (intro allI impI)
    fix j assume "j < K"
    then have "ebase n ts j < af_all n ts" by (intro ebase_less_all) (simp add: K_def)
    then show "E j \<le> A" by (simp add: E_def A_def)
  qed
  have pe: "\<forall>j. 0 \<le> j \<and> j < K \<longrightarrow> promises s2 (E j) = Pending []"
    by (simp add: s2_def s1_def E_def K_def n_def els_promises_base)
  have inj: "inj_on E {..<K}" by (auto simp: inj_on_def E_def K_def dest: ebase_inj)
  define s3 where "s3 = s2\<lparr>promises := all_promises A E 0 K (promises s2),
      next_pid := A + 1 + max 0 K,
      all_values := (all_values s2)(A := all_values s2 A @ replicate (K - 0) Undefined),
      all_remaining := (all_remaining s2)(A := all_remaining s2 A + (K - 0))\<rparr>"
  have m3: "all_elements A 0 (map E [0..<K]) s2 = s3"
    unfolding s3_def by (rule all_elements_eq [OF u2 n2 le pe inj])
  define s4 where "s4 = s3\<lparr>all_remaining := (all_remaining s3)(A := all_remaining s3 A - 1)\<rparr>"
  have f4: "all_remaining s4 A = K" "all_values s4 A = replicate K Undefined"
    "next_pid s4 = A + 1 + K" "promises s4 = all_promises A E 0 K (promises s1)"
    "queue s4 = queue s"
    by (simp_all add: s4_def s3_def s2_def s1_def)
  have pA: "promises s4 A = Pending []"
  proof -
    have "\<forall>j. 0 \<le> j \<and> j < K \<longrightarrow> E j \<noteq> A"
    proof (intro allI impI)
      fix j assume "0 \<le> j \<and> j < K"
      then have "ebase n ts j < af_all n ts" by (intro ebase_less_all) (simp add: K_def)
      then show "E j \<noteq> A" by (simp add: E_def A_def)
    qed
    from all_promises_out [OF this] un1 [of A] show ?thesis by (simp add: f4)
  qed
  have u4: "unalloc s4"
    unfolding unalloc_def
  proof (intro allI impI)
    fix p assume "next_pid s4 \<le> p"
    then have p: "A < p" by (simp add: f4)
    with le have "\<forall>j. 0 \<le> j \<and> j < K \<longrightarrow> E j \<noteq> p" by auto
    from all_promises_out [OF this] un1 [of p] p show "promises s4 p = Pending []"
      by (simp add: f4)
  qed
  define s5 where "s5 = (if all_remaining s4 A = 0
      then resolve_promise A (Arr (all_values s4 A)) s4 else s4)"
  have s2': "(s1\<lparr>next_pid := Suc A\<rparr>)\<lparr>all_values := (all_values (s1\<lparr>next_pid := Suc A\<rparr>))(A := []),
      all_remaining := (all_remaining (s1\<lparr>next_pid := Suc A\<rparr>))(A := 1)\<rparr> = s2"
    by (simp add: s2_def)
  have m5: "promise_all (map E [0..<K]) s1 = (A, s5)"
    unfolding promise_all_def np prod.case Let_def s2' m3 s4_def [symmetric] s5_def [symmetric] ..
  have res: "A + K + 1 = af_result n ts" by (simp add: af_result_def A_def K_def)
  have fin: "promise_then A (AfterWrapper h) s5 = (af_result n ts, af_state ts h s)"
  proof (cases "ts = []")
    case True
    then have K0: "K = 0" by (simp add: K_def)
    have An: "A = n" using True by (simp add: A_def)
    have s5: "s5 = s4\<lparr>promises := (promises s4)(A := Fulfilled (Arr []))\<rparr>"
      using K0 by (simp add: s5_def f4 resolve_promise_pending [OF pA] jobs_of_def)
    have u5: "unalloc s5" using u4 by (simp add: unalloc_def s5 f4)
    have p5: "promises s5 A = Fulfilled (Arr [])" by (simp add: s5)
    have ps: "promises s4 = promises s"
      using True by (simp add: f4 K0 s1_def els_promises_Nil all_promises_def fun_eq_iff)
    have "promise_then A (AfterWrapper h) s5 =
        (next_pid s5, s5\<lparr>queue := queue s5 @ [(AfterWrapper h, next_pid s5, Arr [])],
                         next_pid := Suc (next_pid s5)\<rparr>)"
      using promise_then_settled [OF u5 p5] .
    moreover have "next_pid s5 = af_result n ts" using res K0 by (simp add: s5 f4)
    moreover have "s5\<lparr>queue := queue s5 @ [(AfterWrapper h, next_pid s5, Arr [])],
                      next_pid := Suc (next_pid s5)\<rparr> = af_state ts h s"
    proof (rule state.equality)
      show "promises (s5\<lparr>queue := queue s5 @ [(AfterWrapper h, next_pid s5, Arr [])],
                      next_pid := Suc (next_pid s5)\<rparr>) = promises (af_state ts h s)"
        using af_promises_Nil [of n "promises s" h] un True
        by (simp add: s5 ps af_state_def An n_def)
    qed (simp_all add: s5 s4_def s3_def s2_def s1_def af_state_def True K0 An n_def
          af_result_def af_listeners_def els_state_Nil)
    ultimately show ?thesis by simp
  next
    case False
    then have K0: "K \<noteq> 0" by (simp add: K_def)
    then have s5: "s5 = s4" by (simp add: s5_def f4)
    have pend: "is_pending s4 A" "reactions s4 A = []" using pA by simp_all
    have "promise_then A (AfterWrapper h) s4 =
        (next_pid s4, s4\<lparr>promises := (promises s4)(A := Pending [(AfterWrapper h, next_pid s4)]),
                         next_pid := Suc (next_pid s4)\<rparr>)"
      using promise_then_eq [OF u4 pend(1)] pend(2) by simp
    moreover have "next_pid s4 = af_result n ts" using res by (simp add: f4)
    moreover have "s4\<lparr>promises := (promises s4)(A := Pending [(AfterWrapper h, next_pid s4)]),
                      next_pid := Suc (next_pid s4)\<rparr> = af_state ts h s"
    proof (rule state.equality)
      have "(promises s4)(A := Pending [(AfterWrapper h, next_pid s4)]) =
          af_promises n ts h (promises s)"
        using af_promises_built [of n "promises s" ts h] un False
        by (simp add: f4 s1_def A_def K_def E_def n_def)
      then show "promises (s4\<lparr>promises := (promises s4)(A := Pending [(AfterWrapper h, next_pid s4)]),
                      next_pid := Suc (next_pid s4)\<rparr>) = promises (af_state ts h s)"
        by (simp add: af_state_def n_def)
    qed (simp_all add: s4_def s3_def s2_def s1_def af_state_def False A_def K_def n_def)
    ultimately show ?thesis using s5 by simp
  qed
  have "after events handler s = promise_then A (AfterWrapper h) s5"
    unfolding after_def Let_def ts_def [symmetric] h_def [symmetric] m1 prod.case m5 ..
  with fin show ?thesis by (simp add: ts_def h_def n_def)
qed

section \<open>onceAny: what the returned signal settles with\<close>


lemma oa_trace:
  assumes wf: "wf_state s" and h: "\<forall>p\<in>fn_pids h. p < next_pid s"
  shows "oa_inv (next_pid s) (next_lid s) evs h (exec tr (oa_state evs h s)) \<and>
         oa_ghost (next_pid s) evs (history tr (oa_state evs h s)) (exec tr (oa_state evs h s))"
proof (induction tr rule: rev_induct)
  case Nil
  show ?case using oa_state_inv [OF wf h] oa_state_ghost by simp
next
  case (snoc a tr)
  have hx: "fn_pids h \<inter> oa_X (next_pid s) evs = {}" using h by (rule handler_old_X)
  from snoc have inv: "oa_inv (next_pid s) (next_lid s) evs h (exec tr (oa_state evs h s))"
    and g: "oa_ghost (next_pid s) evs (history tr (oa_state evs h s)) (exec tr (oa_state evs h s))"
    by auto
  show ?case
    using oa_inv_step [OF hx inv, of a] oa_ghost_step [OF hx inv g, of a]
    by (simp add: exec_snoc history_snoc)
qed

text \<open>Once the race is fulfilled, the two derived promises follow as the queue drains.\<close>

lemma oa_settled_value:
  assumes inv: "oa_inv n L evs h s" and g: "oa_ghost n evs hist s"
    and v: "promises s (oa_result n evs) = Fulfilled v"
  shows "\<exists>w. first_hit evs hist = Some w \<and> v = Arr [w]"
proof -
  from oa_result_value [OF inv v] have "promises s (oa_handled n evs) = Fulfilled v" .
  from oa_handled_value [OF inv this] obtain w where w: "promises s (oa_race n evs) = Fulfilled w"
    and vw: "v = Arr [w]" by blast
  show ?thesis
  proof (cases "first_hit evs hist")
    case None
    from oa_ghost_NoneD [OF g None] w show ?thesis by (simp add: is_pending_def)
  next
    case (Some w')
    from oa_ghost_SomeD [OF g Some] w have "w' = w" by (auto simp: is_pending_def)
    with Some vw show ?thesis by simp
  qed
qed


lemma onceAny_call:
  assumes "wf_state s"
  shows "fst (onceAny events handler s) = oa_result (next_pid s) (as_list events)"
    and "snd (onceAny events handler s) = oa_state (as_list events) (or_noop handler) s"
  using onceAny_eq [OF wf_state_unalloc [OF assms], of events handler] by simp_all



lemma wf_fresh_state: "wf_state fresh_state"
  by (simp add: wf_state_def fresh_state_def reactions_def)

section \<open>A reaction installed by then\<close>

lemma then_inv_step:
  assumes f: "d \<notin> resolves f" and inv: "then_inv q f d s"
  shows "then_inv q f d (step a s)"
  unfolding then_inv_def
proof
  show "owns (touches {d}) (ltouches {d} {}) (\<lambda>q'. if q' = q then Some (f, d) else None)
     (\<lambda>l. False) (step a s)"
    using inv unfolding then_inv_def by (intro owns_step) simp
  show "link q f d (step a s)"
  proof (rule link_step [where T = "touches {d}" and TL = "ltouches {d} {}"
        and spec = "\<lambda>q'. if q' = q then Some (f, d) else None" and ours = "\<lambda>l. False"])
    show "owns (touches {d}) (ltouches {d} {}) (\<lambda>q'. if q' = q then Some (f, d) else None)
       (\<lambda>l. False) s" using inv by (simp add: then_inv_def)
    show "link q f d s" using inv by (simp add: then_inv_def)
    show "\<And>f'. touches {d} f' d" by (simp add: touches_def)
    show "\<And>f' d'. d \<in> resolves f' \<Longrightarrow> touches {d} f' d'"
      by (auto simp: touches_def fn_pids_def)
    show "\<And>l. d \<in> resolves (callback l) \<Longrightarrow> ltouches {d} {} l"
      by (auto simp: ltouches_def fn_pids_def)
    show "\<And>q' f' d'. (if q' = q then Some (f, d) else None) = Some (f', d') \<Longrightarrow>
        d \<notin> resolves f' \<and> (d' = d \<longrightarrow> q' = q \<and> f' = f)"
      using f by (auto split: if_splits)
    show "\<And>l. False \<Longrightarrow> d \<notin> resolves (callback l)" by simp
  qed
qed

lemma then_inv_exec: "d \<notin> resolves f \<Longrightarrow> then_inv q f d s \<Longrightarrow> then_inv q f d (exec as s)"
  by (induction as arbitrary: s) (simp_all add: exec_def then_inv_step)

lemma then_inv_link: "then_inv q f d s \<Longrightarrow> link q f d s"
  by (simp add: then_inv_def)

text \<open>The queue is served first in, first out.\<close>

lemma queue_fifo:
  "queue s = pre @ rest \<Longrightarrow> \<exists>new. queue (exec (replicate (length pre) Tick) s) = rest @ new"
proof (induction pre arbitrary: s rest)
  case Nil
  then show ?case by simp
next
  case (Cons x pre)
  from step_queue_append [of Tick s] obtain new1 where "queue (step Tick s) = tl (queue s) @ new1"
    by auto
  with Cons.prems have "queue (step Tick s) = pre @ (rest @ new1)" by simp
  from Cons.IH [OF this] obtain new where
    "queue (exec (replicate (length pre) Tick) (step Tick s)) = (rest @ new1) @ new" by blast
  then show ?case by (auto simp: exec_def)
qed

text \<open>When the job of a linked reaction is at the head of the queue, the next job settles it.\<close>

lemma link_head:
  assumes lk: "link q f d s" and f: "d \<notin> resolves f" and hd: "queue s = (f, d, v) # js"
  shows "promises (step Tick s) d = Fulfilled (ret f [v])"
proof -
  have j: "(f, d, v) \<in> set (jobs_for d s)" using hd by (simp add: jobs_for_def)
  have "is_pending s d"
  proof (cases "promises s q")
    case (Pending rs)
    with lk j show ?thesis by (simp add: link_def)
  next
    case (Fulfilled w)
    with lk j show ?thesis by (auto simp: link_def)
  qed
  from tick_target_value [OF hd f this] show ?thesis by simp
qed

section \<open>The empty list\<close>

lemma af_state_Nil:
  assumes "unalloc s"
  shows "promises (af_state [] h s) = (promises s)(next_pid s := Fulfilled (Arr []))"
    and "queue (af_state [] h s) = queue s @ [(AfterWrapper h, Suc (next_pid s), Arr [])]"
    and "listeners (af_state [] h s) = listeners s"
    and "next_pid (af_state [] h s) = next_pid s + 2"
proof -
  have "\<And>p. next_pid s \<le> p \<Longrightarrow> promises s p = Pending []" using assms by (simp add: unalloc_def)
  from af_promises_Nil [of "next_pid s" "promises s" h, OF this]
  show "promises (af_state [] h s) = (promises s)(next_pid s := Fulfilled (Arr []))"
    by (simp add: af_state_def)
qed (simp_all add: af_state_def af_result_def af_listeners_def)

lemma after_Nil_inv:
  assumes wf: "wf_state s" and h: "\<forall>p\<in>fn_pids h. p < next_pid s"
  shows "then_inv (next_pid s) (AfterWrapper h) (Suc (next_pid s)) (af_state [] h s)"
proof -
  let ?n = "next_pid s" and ?s' = "af_state [] h s"
  let ?f = "AfterWrapper h" and ?d = "Suc (next_pid s)"
  have u: "unalloc s" using wf by (rule wf_state_unalloc)
  note F = af_state_Nil [OF u, of h]
  have oldr: "\<And>q f d. (f, d) \<in> set (reactions s q) \<Longrightarrow> d < ?n \<and> (\<forall>p\<in>fn_pids f. p < ?n)"
    using wf unfolding wf_state_def by blast
  have oldj: "\<And>f d v. (f, d, v) \<in> set (queue s) \<Longrightarrow> d < ?n \<and> (\<forall>p\<in>fn_pids f. p < ?n)"
    using wf unfolding wf_state_def by blast
  have oldl: "\<And>l. l \<in> set (listeners s) \<Longrightarrow> \<forall>p\<in>fn_pids (callback l). p < ?n"
    using wf unfolding wf_state_def by blast
  have notouch: "\<And>f d. d < ?n \<Longrightarrow> \<forall>p\<in>fn_pids f. p < ?n \<Longrightarrow> \<not> touches {?d} f d"
    by (auto simp: touches_def)
  have re: "\<And>q x. x \<in> set (reactions ?s' q) \<Longrightarrow> x \<in> set (reactions s q)"
    by (simp add: reactions_def F split: if_splits)
  have pn: "promises ?s' ?n = Fulfilled (Arr [])" by (simp add: F)
  have pd: "promises ?s' ?d = Pending []" using u by (simp add: F unalloc_def)
  have own: "owns (touches {?d}) (ltouches {?d} {}) (\<lambda>q'. if q' = ?n then Some (?f, ?d) else None)
      (\<lambda>l. False) ?s'"
    unfolding owns_def
  proof (intro conjI allI impI ballI)
    fix q f d assume r: "(f, d) \<in> set (reactions ?s' q)" and t: "touches {?d} f d"
    from re [OF r] have "(f, d) \<in> set (reactions s q)" .
    with oldr notouch t show "(if q = ?n then Some (?f, ?d) else None) = Some (f, d)" by blast
  next
    fix f d v assume j: "(f, d, v) \<in> set (queue ?s')" and t: "touches {?d} f d"
    from j have "(f, d, v) \<in> set (queue s) \<or> (f, d, v) = (?f, ?d, Arr [])" by (auto simp: F)
    with oldj notouch t have "(f, d, v) = (?f, ?d, Arr [])" by blast
    with pn show "\<exists>q. (if q = ?n then Some (?f, ?d) else None) = Some (f, d) \<and>
        promises ?s' q = Fulfilled v" by auto
  next
    fix l assume "l \<in> set (listeners ?s')" and t: "ltouches {?d} {} l"
    then have "l \<in> set (listeners s)" by (simp add: F)
    from oldl [OF this] t show False by (auto simp: ltouches_def)
  qed
  have "\<forall>j\<in>set (queue s). fst (snd j) \<noteq> ?d"
  proof
    fix j assume j: "j \<in> set (queue s)"
    obtain f' d' v' where "j = (f', d', v')" by (cases j) auto
    with oldj [of f' d' v'] j show "fst (snd j) \<noteq> ?d" by auto
  qed
  then have "filter (\<lambda>j. fst (snd j) = ?d) (queue s) = []" by (simp add: filter_empty_conv)
  then have jf: "jobs_for ?d ?s' = [(?f, ?d, Arr [])]" by (simp add: jobs_for_def F)
  have "link ?n ?f ?d ?s'" using pn pd jf by (simp add: link_def)
  with own show ?thesis by (simp add: then_inv_def)
qed

lemma after_call:
  assumes "wf_state s"
  shows "fst (after events handler s) = af_result (next_pid s) (as_list events)"
    and "snd (after events handler s) = af_state (as_list events) (or_noop handler) s"
  using after_eq [OF wf_state_unalloc [OF assms], of events handler] by simp_all

lemma first_hit_Nil [simp]: "first_hit [] hist = None"
  by (simp add: first_hit_def hits_def)

lemma plain_fresh_state: "plain_emitter fresh_state"
  by (simp add: plain_emitter_def fresh_state_def)

text \<open>
  Claim C10.  On the empty list the two combinators part ways.  Let the application be in
  a well-formed state whose emitter has no listener under Node's own event names.  The
  signal of \<open>after([])\<close> is settled with the empty list as soon as the promise jobs that
  were queued before the call, and one more, have run: no event is needed, and whatever
  follows does not change it.  The signal of \<open>onceAny([])\<close> is not settled after any run
  of emissions and promise jobs.
\<close>

theorem empty_list_after_settles_onceAny_never:
  assumes "wf_state s" and "plain_emitter s"
  shows "promises (exec (replicate (Suc (length (queue s))) Tick @ tr) (snd (after (Many []) None s)))
           (fst (after (Many []) None s)) = Fulfilled (Arr []) \<and>
         promises (exec tr (snd (onceAny (Many []) None s))) (fst (onceAny (Many []) None s))
           \<noteq> Fulfilled v"
proof
  let ?n = "next_pid s"
  let ?s1 = "af_state [] Noop s"
  let ?f = "AfterWrapper Noop" and ?d = "Suc (next_pid s)"
  let ?k = "length (queue s)"
  have u: "unalloc s" using assms(1) by (rule wf_state_unalloc)
  have h: "\<forall>p\<in>fn_pids Noop. p < next_pid s" by (simp add: fn_pids_def)
  have r: "?d \<notin> resolves ?f" by simp
  have inv: "then_inv ?n ?f ?d ?s1" using assms(1) h by (rule after_Nil_inv)
  have "queue ?s1 = queue s @ [(?f, ?d, Arr [])]" by (rule af_state_Nil [OF u])
  from queue_fifo [OF this] obtain new where
    q: "queue (exec (replicate ?k Tick) ?s1) = (?f, ?d, Arr []) # new" by auto
  have "link ?n ?f ?d (exec (replicate ?k Tick) ?s1)"
    using then_inv_exec [OF r inv] by (rule then_inv_link)
  from link_head [OF this r q]
  have "promises (step Tick (exec (replicate ?k Tick) ?s1)) ?d = Fulfilled (Arr [])"
    by (simp add: arg0_def)
  then have "promises (exec tr (step Tick (exec (replicate ?k Tick) ?s1))) ?d = Fulfilled (Arr [])"
    by (rule exec_stable)
  moreover have "replicate (Suc ?k) Tick = replicate ?k Tick @ [Tick]"
    by (simp add: replicate_append_same)
  ultimately have "promises (exec (replicate (Suc ?k) Tick @ tr) ?s1) ?d = Fulfilled (Arr [])"
    by (simp add: exec_append exec_def)
  then show "promises (exec (replicate (Suc (length (queue s))) Tick @ tr) (snd (after (Many []) None s)))
           (fst (after (Many []) None s)) = Fulfilled (Arr [])"
    by (simp add: after_call [OF assms(1)] or_noop_def af_result_def)
next
  let ?s1 = "oa_state [] Noop s"
  have h: "\<forall>p\<in>fn_pids Noop. p < next_pid s" by (simp add: fn_pids_def)
  note T = oa_trace [OF assms(1) h, of "[]" tr]
  have "promises (exec tr ?s1) (oa_result (next_pid s) []) \<noteq> Fulfilled v"
  proof
    assume "promises (exec tr ?s1) (oa_result (next_pid s) []) = Fulfilled v"
    from oa_settled_value [OF _ _ this] T show False by auto
  qed
  then show "promises (exec tr (snd (onceAny (Many []) None s))) (fst (onceAny (Many []) None s))
           \<noteq> Fulfilled v"
    by (simp add: onceAny_call [OF assms(1)] or_noop_def)
qed

theorem empty_list_after_settles_onceAny_never_witness:
  "wf_state fresh_state \<and> plain_emitter fresh_state \<and>
   promises (exec [Tick, Emit ''ready'' []] (snd (after (Many []) None fresh_state)))
     (fst (after (Many []) None fresh_state)) = Fulfilled (Arr []) \<and>
   promises (exec [Emit ''ready'' []] (snd (onceAny (Many []) None fresh_state)))
     (fst (onceAny (Many []) None fresh_state)) \<noteq> Fulfilled (Arr [])"
proof -
  have q: "queue fresh_state = []" by (simp add: fresh_state_def)
  from empty_list_after_settles_onceAny_never [OF wf_fresh_state plain_fresh_state,
      where tr = "[Emit ''ready'' []]" and v = "Arr []"]
  have "promises (exec ([Tick] @ [Emit ''ready'' []]) (snd (after (Many []) None fresh_state)))
     (fst (after (Many []) None fresh_state)) = Fulfilled (Arr []) \<and>
   promises (exec [Emit ''ready'' []] (snd (onceAny (Many []) None fresh_state)))
     (fst (onceAny (Many []) None fresh_state)) \<noteq> Fulfilled (Arr [])"
    unfolding q by simp
  with wf_fresh_state plain_fresh_state show ?thesis by simp
qed

section \<open>after: the reactions of a call keep apart\<close>


subsection \<open>Where the functions of a onceAny call point\<close>














section \<open>after: what the invariant of a call owns\<close>




















section \<open>after: the state after the call satisfies the invariant\<close>

lemma af_state_fields [simp]:
  "calls (af_state ts h s) = calls s"
  "started (af_state ts h s) = started s"
  "debug_log (af_state ts h s) = debug_log s"
  "translate (af_state ts h s) = translate s"
  "i18n_pending (af_state ts h s) = i18n_pending s"
  "fatal (af_state ts h s) = fatal s"
  "next_pid (af_state ts h s) = af_all (next_pid s) ts + length ts + 2"
  "next_lid (af_state ts h s) = lbase (next_lid s) ts (length ts)"
  "listeners (af_state ts h s) = listeners s @ af_listeners (next_pid s) (next_lid s) ts"
  "promises (af_state ts h s) = af_promises (next_pid s) ts h (promises s)"
  "queue (af_state ts h s) =
     queue s @ (if ts = [] then [(AfterWrapper h, af_result (next_pid s) ts, Arr [])] else [])"
  "all_values (af_state ts h s) =
     (all_values s)(af_all (next_pid s) ts := replicate (length ts) Undefined)"
  "all_remaining (af_state ts h s) = (all_remaining s)(af_all (next_pid s) ts := length ts)"
  by (simp_all add: af_state_def)











lemma card_all_below: "card {i. i < (k::nat) \<and> True} = k"
  by simp




section \<open>after: every step keeps the invariant\<close>

subsection \<open>Particular jobs\<close>





subsection \<open>Who can reach an element promise\<close>





subsection \<open>The elements\<close>




subsection \<open>The cells of Promise.all\<close>





section \<open>after: the elements and the emissions\<close>






subsection \<open>What the elements and the signal hold\<close>







section \<open>after: when the returned signal settles, and with what\<close>













section \<open>Listeners left behind by onceAny\<close>

text \<open>
  Claim C1 fails on the code.  After \<open>onceAny(['a', 'b'])\<close> and \<open>emit('b', 1)\<close> the signal
  has settled and no job is left, but the one-shot listener for \<open>a\<close> is still attached:
  the cleanup removes, under every event name, only the listener that wraps the last
  \<open>resolve\<close> function assigned to \<open>resolveCallback\<close>.
\<close>

theorem onceAny_leaks_listener:
  "promises leak_run (fst leak_call) = Fulfilled (Arr [Num 1]) \<and>
   queue leak_run = [] \<and>
   listeners leak_run = [\<lparr>lid = 0, ev_name = ''a'', is_once = True, callback = Resolve 0\<rparr>]"
  unfolding leak_run_def leak_call_def by code_simp

section \<open>Arguments lost by onceAny\<close>

text \<open>
  Claim C2 fails on the code.  After \<open>onceAny(['a', 'b'])\<close> and \<open>emit('a', 1, 2)\<close> the
  signal settles with \<open>[1]\<close>, not with the argument list \<open>[1, 2]\<close> of the event: the
  listener registered for each event name is the \<open>resolve\<close> function of a promise, which
  takes its first argument only, so the rest parameter of \<open>handlerWrapper\<close> never collects
  more than that one value.
\<close>

theorem onceAny_drops_arguments:
  "promises two_args_run (fst two_args_call) = Fulfilled (Arr [Num 1]) \<and>
   promises two_args_run (fst two_args_call) \<noteq> Fulfilled (Arr [Num 1, Num 2])"
  unfolding two_args_run_def two_args_trace_def two_args_call_def by code_simp

section \<open>The callback handler\<close>









subsection \<open>The handler of onceAny\<close>




subsection \<open>The handler of after\<close>






end
